theory Spec2Isabelle
  imports Main "HOL-Library.Sublist"
begin

section \<open>The comment-stripping conversion script\<close>

text \<open>
  The repository's one program is \<^verbatim>\<open>src/template/convert_to_no_comment.js\<close>:
  \<^verbatim>\<open>
  builder.OpenFile("${fileUrl}");
  const ext = "${ext}"
  var oDocument;
  switch (ext) {
      case "doc":
      case "docx":
          oDocument = Api.GetDocument();
          break;
      case "xls":
      case "xlsx":
          oDocument = Api.GetActiveSheet();
          break;
  }

  var aComments = oDocument.GetAllComments();
  for (var i = 0; i < aComments.length; i++) {
      aComments[i].Delete();
  }

  builder.SaveFile(ext, "output.${ext}");
  builder.CloseFile();
  \<close>
  The two placeholders are filled in before the script runs, so the script is a function
  of the two strings \<open>fileUrl\<close> and \<open>ext\<close>. Everything else it does is a call into the
  document editor that hosts it (\<open>builder\<close>, \<open>Api\<close> and the objects they hand out). The
  editor is not part of the repository: the embedding takes it as a parameter, a record
  of seven operations over a state of the editor's own. The operations have the types
  the script uses them at: an accessor returns an object, \<open>GetAllComments\<close> returns an array
  of objects that have a \<open>Delete\<close> method.
\<close>

subsection \<open>Values, failures and the interaction log\<close>

text \<open>
  \<open>aComments\<close> is a reference to an array. The editor that built the array may keep the
  reference and change the array later, so arrays live in a store indexed by address and
  every operation of the editor receives and returns the store.
\<close>

type_synonym addr = nat

record ('h, 'c) world =
  host_state :: 'h
  arrays :: "addr \<Rightarrow> 'c list"

text \<open>
  An operation of the editor either throws (\<open>Inl\<close>) or returns (\<open>Inr\<close>); in both cases it
  leaves a world behind.
\<close>

type_synonym ('h, 'c, 'e, 'a) host_op = "('h, 'c) world \<Rightarrow> ('e + 'a) \<times> ('h, 'c) world"

record ('h, 'd, 'c, 'e) host =
  builder_OpenFile :: "string \<Rightarrow> ('h, 'c, 'e, unit) host_op"
  Api_GetDocument :: "('h, 'c, 'e, 'd) host_op"
  Api_GetActiveSheet :: "('h, 'c, 'e, 'd) host_op"
  GetAllComments :: "'d \<Rightarrow> ('h, 'c, 'e, addr) host_op"
  Delete :: "'c \<Rightarrow> ('h, 'c, 'e, unit) host_op"
  builder_SaveFile :: "string \<Rightarrow> string \<Rightarrow> ('h, 'c, 'e, unit) host_op"
  builder_CloseFile :: "('h, 'c, 'e, unit) host_op"

text \<open>
  The script ends with an exception in two ways: an operation of the editor throws, or
  the script calls a method on \<open>undefined\<close>, which is a \<open>TypeError\<close> of the language. There
  is no \<open>try\<close> in the script, so an exception ends the run.
\<close>

datatype 'e failure = HostFailure 'e | TypeError

text \<open>The log of a run: every call the script issued, with what the editor answered.\<close>

datatype ('d, 'c) call =
    Call_OpenFile string
  | Call_GetDocument
  | Call_GetActiveSheet
  | Call_GetAllComments 'd
  | Call_Delete 'c
  | Call_SaveFile string string
  | Call_CloseFile

datatype ('d, 'c, 'e) response =
    Threw 'e
  | Done
  | Handle 'd
  | Array addr "'c list"

type_synonym ('d, 'c, 'e) log = "(('d, 'c) call \<times> ('d, 'c, 'e) response) list"

type_synonym ('h, 'd, 'c, 'e) js_state = "('h, 'c) world \<times> ('d, 'c, 'e) log"

type_synonym ('h, 'd, 'c, 'e, 'a) step = "('e failure + 'a) \<times> ('h, 'd, 'c, 'e) js_state"

text \<open>
  One call into the editor: run the operation on the current world, append the call and
  its answer to the log, and turn a thrown value into the failure of the script.
\<close>

definition invoke ::
  "('d, 'c) call \<Rightarrow> ('h, 'c, 'e, 'a) host_op \<Rightarrow> ('a \<Rightarrow> ('h, 'c) world \<Rightarrow> ('d, 'c, 'e) response) \<Rightarrow>
   ('h, 'd, 'c, 'e) js_state \<Rightarrow> ('h, 'd, 'c, 'e, 'a) step" where
  "invoke c op answer s =
     (case op (fst s) of
        (Inl e, w') \<Rightarrow> (Inl (HostFailure e), (w', snd s @ [(c, Threw e)]))
      | (Inr a, w') \<Rightarrow> (Inr a, (w', snd s @ [(c, answer a w')])))"

text \<open>Sequencing: the rest of the script runs only if the step before it returned.\<close>

definition and_then ::
  "('h, 'd, 'c, 'e, 'a) step option \<Rightarrow> ('a \<Rightarrow> ('h, 'd, 'c, 'e) js_state \<Rightarrow> ('h, 'd, 'c, 'e, 'b) step option) \<Rightarrow>
   ('h, 'd, 'c, 'e, 'b) step option" where
  "and_then m k =
     (case m of
        None \<Rightarrow> None
      | Some (Inl f, s) \<Rightarrow> Some (Inl f, s)
      | Some (Inr a, s) \<Rightarrow> k a s)"

subsection \<open>The script\<close>

text \<open>
  The \<open>switch\<close>: strict equality on strings, two labels falling through to each
  assignment, no \<open>default\<close>. \<open>None\<close> is \<open>oDocument\<close> left \<open>undefined\<close>.
\<close>

definition select_accessor ::
  "('h, 'd, 'c, 'e) host \<Rightarrow> string \<Rightarrow> ('h, 'd, 'c, 'e) js_state \<Rightarrow> ('h, 'd, 'c, 'e, 'd option) step" where
  "select_accessor H ext s =
     (if ext = ''doc'' \<or> ext = ''docx'' then
        (case invoke Call_GetDocument (Api_GetDocument H) (\<lambda>d w. Handle d) s of
           (Inl f, s') \<Rightarrow> (Inl f, s')
         | (Inr d, s') \<Rightarrow> (Inr (Some d), s'))
      else if ext = ''xls'' \<or> ext = ''xlsx'' then
        (case invoke Call_GetActiveSheet (Api_GetActiveSheet H) (\<lambda>d w. Handle d) s of
           (Inl f, s') \<Rightarrow> (Inl f, s')
         | (Inr d, s') \<Rightarrow> (Inr (Some d), s'))
      else (Inr None, s))"

text \<open>
  The \<open>for\<close> loop. Each round reads \<open>aComments.length\<close> and \<open>aComments[i]\<close> from the store
  as it is then, so a \<open>Delete\<close> that changes the array changes what the loop does next.
  Such a loop need not end (the array may grow): \<open>None\<close> is the run that never returns.
\<close>

partial_function (option) delete_loop ::
  "('h, 'd, 'c, 'e) host \<Rightarrow> addr \<Rightarrow> nat \<Rightarrow> ('h, 'd, 'c, 'e) js_state \<Rightarrow> ('h, 'd, 'c, 'e, unit) step option" where
  "delete_loop H aComments i s =
     (if i < length (arrays (fst s) aComments) then
        (case invoke (Call_Delete (arrays (fst s) aComments ! i))
                (Delete H (arrays (fst s) aComments ! i)) (\<lambda>u w. Done) s of
           (Inl f, s') \<Rightarrow> Some (Inl f, s')
         | (Inr u, s') \<Rightarrow> delete_loop H aComments (i + 1) s')
      else Some (Inr (), s))"

declare delete_loop.simps [code]

definition convert ::
  "('h, 'd, 'c, 'e) host \<Rightarrow> string \<Rightarrow> string \<Rightarrow> ('h, 'c) world \<Rightarrow> ('h, 'd, 'c, 'e, unit) step option" where
  "convert H fileUrl ext w =
     and_then (Some (invoke (Call_OpenFile fileUrl) (builder_OpenFile H fileUrl) (\<lambda>u w. Done) (w, []))) (\<lambda>u s1.
     and_then (Some (select_accessor H ext s1)) (\<lambda>oDocument s2.
     case oDocument of
       None \<Rightarrow> Some (Inl TypeError, s2)
     | Some d \<Rightarrow>
     and_then (Some (invoke (Call_GetAllComments d) (GetAllComments H d) (\<lambda>a w. Array a (arrays w a)) s2)) (\<lambda>aComments s3.
     and_then (delete_loop H aComments 0 s3) (\<lambda>u s4.
     and_then (Some (invoke (Call_SaveFile ext (''output.'' @ ext)) (builder_SaveFile H ext (''output.'' @ ext)) (\<lambda>u w. Done) s4)) (\<lambda>u s5.
     Some (invoke Call_CloseFile (builder_CloseFile H) (\<lambda>u w. Done) s5))))))"

subsection \<open>The editor, as the specification describes it\<close>

text \<open>
  Modelled from the spec: the document editor behind \<open>builder\<close> and \<open>Api\<close>, which is not in
  the repository. Where a property is about the files the editor reads and writes, it is
  stated for the editor the specification describes: a file holds a document, a document
  has content and an ordered sequence of comments, opening a file loads a copy of its
  document into the session, every mutation is on that copy, and saving writes the copy
  under the given name. The failures are those of the specification's taxonomy: a file
  that cannot be resolved, a comment that cannot be deleted, an output that cannot be
  written.
\<close>

record document =
  body :: string
  comments :: "nat list"

datatype host_error = ResolutionFailure | NoOpenDocument | DeletionFailure | SaveFailure

datatype handle = ActiveDocument

record editor =
  files :: "string \<rightharpoonup> document"
  session :: "document option"
  undeletable :: "nat \<Rightarrow> bool"
  unwritable :: "string \<Rightarrow> bool"
  next_array :: addr

type_synonym editor_world = "(editor, nat) world"

definition editor_open :: "string \<Rightarrow> (editor, nat, host_error, unit) host_op" where
  \<comment> \<open>Modelled from the spec: the editor's \<open>open(fileUrl)\<close>, not in the repository. A file that
      cannot be resolved is a resolution failure; otherwise its document is loaded.\<close>
  "editor_open fileUrl w =
     (case files (host_state w) fileUrl of
        None \<Rightarrow> (Inl ResolutionFailure, w)
      | Some doc \<Rightarrow> (Inr (), w\<lparr>host_state := (host_state w)\<lparr>session := Some doc\<rparr>\<rparr>))"

definition editor_accessor :: "(editor, nat, host_error, handle) host_op" where
  \<comment> \<open>Modelled from the spec: the editor's \<open>getActiveDocument()\<close> and \<open>getActiveSheet()\<close>, not in
      the repository. Either hands out the handle of the one open document.\<close>
  "editor_accessor w =
     (case session (host_state w) of
        None \<Rightarrow> (Inl NoOpenDocument, w)
      | Some doc \<Rightarrow> (Inr ActiveDocument, w))"

definition editor_comments :: "handle \<Rightarrow> (editor, nat, host_error, addr) host_op" where
  \<comment> \<open>Modelled from the spec: the editor's \<open>getAllComments()\<close>, not in the repository. The
      comments of the open document, in order, as a snapshot: a fresh array.\<close>
  "editor_comments d w =
     (case session (host_state w) of
        None \<Rightarrow> (Inl NoOpenDocument, w)
      | Some doc \<Rightarrow>
          (Inr (next_array (host_state w)),
           w\<lparr>host_state := (host_state w)\<lparr>next_array := next_array (host_state w) + 1\<rparr>,
             arrays := (arrays w)(next_array (host_state w) := comments doc)\<rparr>))"

definition editor_delete :: "nat \<Rightarrow> (editor, nat, host_error, unit) host_op" where
  \<comment> \<open>Modelled from the spec: the editor's \<open>CommentHandle.delete()\<close>, not in the repository. The
      comment leaves the open document, unless it cannot be deleted.\<close>
  "editor_delete c w =
     (if undeletable (host_state w) c then (Inl DeletionFailure, w)
      else case session (host_state w) of
        None \<Rightarrow> (Inl NoOpenDocument, w)
      | Some doc \<Rightarrow>
          (Inr (), w\<lparr>host_state := (host_state w)\<lparr>session := Some (doc\<lparr>comments := removeAll c (comments doc)\<rparr>)\<rparr>\<rparr>))"

definition editor_save :: "string \<Rightarrow> string \<Rightarrow> (editor, nat, host_error, unit) host_op" where
  \<comment> \<open>Modelled from the spec: the editor's \<open>saveAs(ext, filename)\<close>, not in the repository. The
      open document, as it is now, becomes the file of that name, unless the file cannot
      be written; then no file changes.\<close>
  "editor_save fmt name w =
     (case session (host_state w) of
        None \<Rightarrow> (Inl NoOpenDocument, w)
      | Some doc \<Rightarrow>
          if unwritable (host_state w) name then (Inl SaveFailure, w)
          else (Inr (), w\<lparr>host_state := (host_state w)\<lparr>files := (files (host_state w))(name \<mapsto> doc)\<rparr>\<rparr>))"

definition editor_close :: "(editor, nat, host_error, unit) host_op" where
  \<comment> \<open>Modelled from the spec: the editor's \<open>close()\<close>, not in the repository.\<close>
  "editor_close w = (Inr (), w\<lparr>host_state := (host_state w)\<lparr>session := None\<rparr>\<rparr>)"

definition editor_host :: "(editor, handle, nat, host_error) host" where
  "editor_host =
     \<lparr>builder_OpenFile = editor_open,
      Api_GetDocument = editor_accessor,
      Api_GetActiveSheet = editor_accessor,
      GetAllComments = editor_comments,
      Delete = editor_delete,
      builder_SaveFile = editor_save,
      builder_CloseFile = editor_close\<rparr>"

text \<open>A starting world: the given files, nothing open, no array handed out yet.\<close>

definition start_world :: "(string \<rightharpoonup> document) \<Rightarrow> (nat \<Rightarrow> bool) \<Rightarrow> (string \<Rightarrow> bool) \<Rightarrow> editor_world" where
  "start_world fs locked readonly =
     \<lparr>host_state = \<lparr>files = fs, session = None, undeletable = locked, unwritable = readonly, next_array = 0\<rparr>,
      arrays = (\<lambda>a. [])\<rparr>"

subsection \<open>What the properties are stated with\<close>

text \<open>
  The array a \<open>GetAllComments\<close> returned is a snapshot when no \<open>Delete\<close> changes any array.
\<close>

definition snapshot_stable :: "('h, 'd, 'c, 'e) host \<Rightarrow> bool" where
  "snapshot_stable H = (\<forall>c w. arrays (snd (Delete H c w)) = arrays w)"

text \<open>Reading a log: which answers are exceptions, which calls are of which kind.\<close>

fun is_throw :: "('d, 'c, 'e) response \<Rightarrow> bool" where
  "is_throw (Threw e) = True"
| "is_throw rsp = False"

fun is_accessor :: "('d, 'c) call \<Rightarrow> bool" where
  "is_accessor Call_GetDocument = True"
| "is_accessor Call_GetActiveSheet = True"
| "is_accessor c = False"

fun is_enumeration :: "('d, 'c) call \<Rightarrow> bool" where
  "is_enumeration (Call_GetAllComments d) = True"
| "is_enumeration c = False"

fun is_deletion :: "('d, 'c) call \<Rightarrow> bool" where
  "is_deletion (Call_Delete c) = True"
| "is_deletion c = False"

text \<open>
  The comments \<open>Delete\<close> was called on, the arrays \<open>GetAllComments\<close> returned (as they were
  when it returned) and the targets of \<open>SaveFile\<close>, each in the order of the log.
\<close>

definition deletions :: "('d, 'c, 'e) log \<Rightarrow> 'c list" where
  "deletions tr = concat (map (\<lambda>x. case fst x of Call_Delete c \<Rightarrow> [c] | _ \<Rightarrow> []) tr)"

definition snapshots :: "('d, 'c, 'e) log \<Rightarrow> 'c list list" where
  "snapshots tr = concat (map (\<lambda>x. case snd x of Array a cs \<Rightarrow> [cs] | _ \<Rightarrow> []) tr)"

definition saves :: "('d, 'c, 'e) log \<Rightarrow> (string \<times> string) list" where
  "saves tr = concat (map (\<lambda>x. case fst x of Call_SaveFile fmt name \<Rightarrow> [(fmt, name)] | _ \<Rightarrow> []) tr)"

text \<open>
  A log is a true record of a run from a world when performing its calls in order, each
  as the operation of the editor that the call names, gives the answers the log holds;
  \<open>replay\<close> then returns the world the last call left.
\<close>

fun perform ::
  "('h, 'd, 'c, 'e) host \<Rightarrow> ('d, 'c) call \<Rightarrow> ('h, 'c) world \<Rightarrow> ('d, 'c, 'e) response \<times> ('h, 'c) world" where
  "perform H (Call_OpenFile fileUrl) w =
     (case builder_OpenFile H fileUrl w of (Inl e, w') \<Rightarrow> (Threw e, w') | (Inr u, w') \<Rightarrow> (Done, w'))"
| "perform H Call_GetDocument w =
     (case Api_GetDocument H w of (Inl e, w') \<Rightarrow> (Threw e, w') | (Inr d, w') \<Rightarrow> (Handle d, w'))"
| "perform H Call_GetActiveSheet w =
     (case Api_GetActiveSheet H w of (Inl e, w') \<Rightarrow> (Threw e, w') | (Inr d, w') \<Rightarrow> (Handle d, w'))"
| "perform H (Call_GetAllComments d) w =
     (case GetAllComments H d w of (Inl e, w') \<Rightarrow> (Threw e, w') | (Inr a, w') \<Rightarrow> (Array a (arrays w' a), w'))"
| "perform H (Call_Delete c) w =
     (case Delete H c w of (Inl e, w') \<Rightarrow> (Threw e, w') | (Inr u, w') \<Rightarrow> (Done, w'))"
| "perform H (Call_SaveFile fmt name) w =
     (case builder_SaveFile H fmt name w of (Inl e, w') \<Rightarrow> (Threw e, w') | (Inr u, w') \<Rightarrow> (Done, w'))"
| "perform H Call_CloseFile w =
     (case builder_CloseFile H w of (Inl e, w') \<Rightarrow> (Threw e, w') | (Inr u, w') \<Rightarrow> (Done, w'))"

fun replay ::
  "('h, 'd, 'c, 'e) host \<Rightarrow> ('d, 'c, 'e) log \<Rightarrow> ('h, 'c) world \<Rightarrow> ('h, 'c) world option" where
  "replay H [] w = Some w"
| "replay H ((c, rsp) # tr) w =
     (case perform H c w of (rsp', w') \<Rightarrow> if rsp' = rsp then replay H tr w' else None)"

text \<open>The log of a run that returned; a run that never returns has none.\<close>

definition run_log :: "('h, 'd, 'c, 'e, unit) step option \<Rightarrow> ('d, 'c, 'e) log" where
  "run_log run = (case run of None \<Rightarrow> [] | Some (r, s) \<Rightarrow> snd s)"

text \<open>A casing variant of a word is a different word with the same lower-case form.\<close>

definition ascii_lower :: "char \<Rightarrow> char" where
  "ascii_lower ch =
     (case map_of (zip ''ABCDEFGHIJKLMNOPQRSTUVWXYZ'' ''abcdefghijklmnopqrstuvwxyz'') ch of
        Some l \<Rightarrow> l
      | None \<Rightarrow> ch)"

subsection \<open>Devices of the proofs\<close>

definition supported :: "string set" where
  "supported = {''doc'', ''docx'', ''xls'', ''xlsx''}"

definition accessor_call :: "string \<Rightarrow> ('d, 'c) call" where
  "accessor_call ext = (if ext = ''doc'' \<or> ext = ''docx'' then Call_GetDocument else Call_GetActiveSheet)"

text \<open>
  The loop over a fixed list of comments: what \<open>delete_loop\<close> comes to when the array is a
  snapshot (lemma \<open>delete_loop_stable\<close>).
\<close>

fun delete_each ::
  "('h, 'd, 'c, 'e) host \<Rightarrow> 'c list \<Rightarrow> ('h, 'd, 'c, 'e) js_state \<Rightarrow> ('h, 'd, 'c, 'e, unit) step" where
  "delete_each H [] s = (Inr (), s)"
| "delete_each H (c # cs) s =
     (case invoke (Call_Delete c) (Delete H c) (\<lambda>u w. Done) s of
        (Inl f, s') \<Rightarrow> (Inl f, s')
      | (Inr u, s') \<Rightarrow> delete_each H cs s')"

text \<open>The last two calls of the script, from the state the loop left.\<close>

definition finish ::
  "('h, 'd, 'c, 'e) host \<Rightarrow> string \<Rightarrow> ('h, 'd, 'c, 'e) js_state \<Rightarrow> ('h, 'd, 'c, 'e, unit) step option" where
  "finish H ext s4 =
     and_then (Some (invoke (Call_SaveFile ext (''output.'' @ ext)) (builder_SaveFile H ext (''output.'' @ ext)) (\<lambda>u w. Done) s4)) (\<lambda>u s5.
     Some (invoke Call_CloseFile (builder_CloseFile H) (\<lambda>u w. Done) s5))"

abbreviation deleted :: "'c list \<Rightarrow> ('d, 'c, 'e) log" where
  "deleted cs \<equiv> map (\<lambda>c. (Call_Delete c, Done)) cs"

abbreviation prelude :: "string \<Rightarrow> string \<Rightarrow> 'd \<Rightarrow> addr \<Rightarrow> 'c list \<Rightarrow> ('d, 'c, 'e) log" where
  "prelude fileUrl ext d a cs0 \<equiv>
     [(Call_OpenFile fileUrl, Done), (accessor_call ext, Handle d), (Call_GetAllComments d, Array a cs0)]"

abbreviation saving :: "string \<Rightarrow> ('d, 'c) call" where
  "saving ext \<equiv> Call_SaveFile ext (''output.'' @ ext)"

subsection \<open>Concrete runs\<close>

text \<open>
  The scenarios of the specification: \<open>report.docx\<close> with three comments, \<open>budget.xlsx\<close>
  with two; and three variations of the first: the second comment cannot be deleted, the
  output cannot be written, the content is another.
\<close>

definition report_doc :: document where
  "report_doc = \<lparr>body = ''Quarterly report'', comments = [1, 2, 3]\<rparr>"

definition report_world :: editor_world where
  "report_world = start_world [''report.docx'' \<mapsto> report_doc] (\<lambda>c. False) (\<lambda>n. False)"

definition report_opened :: editor_world where
  "report_opened =
     \<lparr>host_state = \<lparr>files = [''report.docx'' \<mapsto> report_doc], session = Some report_doc,
        undeletable = (\<lambda>c. False), unwritable = (\<lambda>n. False), next_array = 0\<rparr>,
      arrays = (\<lambda>a. [])\<rparr>"

definition report_done :: editor_world where
  "report_done =
     \<lparr>host_state = \<lparr>files = [''report.docx'' \<mapsto> report_doc, ''output.docx'' \<mapsto> report_doc\<lparr>comments := []\<rparr>],
        session = None, undeletable = (\<lambda>c. False), unwritable = (\<lambda>n. False), next_array = 1\<rparr>,
      arrays = (\<lambda>a. [])(0 := [1, 2, 3])\<rparr>"

definition report_log :: "(handle, nat, host_error) log" where
  "report_log =
     [(Call_OpenFile ''report.docx'', Done),
      (Call_GetDocument, Handle ActiveDocument),
      (Call_GetAllComments ActiveDocument, Array 0 [1, 2, 3]),
      (Call_Delete 1, Done), (Call_Delete 2, Done), (Call_Delete 3, Done),
      (Call_SaveFile ''docx'' ''output.docx'', Done),
      (Call_CloseFile, Done)]"

definition budget_doc :: document where
  "budget_doc = \<lparr>body = ''Budget'', comments = [7, 4]\<rparr>"

definition budget_world :: editor_world where
  "budget_world = start_world [''budget.xlsx'' \<mapsto> budget_doc] (\<lambda>c. False) (\<lambda>n. False)"

definition budget_done :: editor_world where
  "budget_done =
     \<lparr>host_state = \<lparr>files = [''budget.xlsx'' \<mapsto> budget_doc, ''output.xlsx'' \<mapsto> budget_doc\<lparr>comments := []\<rparr>],
        session = None, undeletable = (\<lambda>c. False), unwritable = (\<lambda>n. False), next_array = 1\<rparr>,
      arrays = (\<lambda>a. [])(0 := [7, 4])\<rparr>"

definition budget_log :: "(handle, nat, host_error) log" where
  "budget_log =
     [(Call_OpenFile ''budget.xlsx'', Done),
      (Call_GetActiveSheet, Handle ActiveDocument),
      (Call_GetAllComments ActiveDocument, Array 0 [7, 4]),
      (Call_Delete 7, Done), (Call_Delete 4, Done),
      (Call_SaveFile ''xlsx'' ''output.xlsx'', Done),
      (Call_CloseFile, Done)]"

definition locked_world :: editor_world where
  "locked_world = start_world [''report.docx'' \<mapsto> report_doc] (\<lambda>c. c = 2) (\<lambda>n. False)"

definition locked_end :: editor_world where
  "locked_end =
     \<lparr>host_state = \<lparr>files = [''report.docx'' \<mapsto> report_doc],
        session = Some (report_doc\<lparr>comments := [2, 3]\<rparr>),
        undeletable = (\<lambda>c. c = 2), unwritable = (\<lambda>n. False), next_array = 1\<rparr>,
      arrays = (\<lambda>a. [])(0 := [1, 2, 3])\<rparr>"

definition locked_log :: "(handle, nat, host_error) log" where
  "locked_log =
     [(Call_OpenFile ''report.docx'', Done),
      (Call_GetDocument, Handle ActiveDocument),
      (Call_GetAllComments ActiveDocument, Array 0 [1, 2, 3]),
      (Call_Delete 1, Done), (Call_Delete 2, Threw DeletionFailure)]"

definition readonly_world :: editor_world where
  "readonly_world = start_world [''report.docx'' \<mapsto> report_doc] (\<lambda>c. False) (\<lambda>n. n = ''output.docx'')"

definition readonly_end :: editor_world where
  "readonly_end =
     \<lparr>host_state = \<lparr>files = [''report.docx'' \<mapsto> report_doc],
        session = Some (report_doc\<lparr>comments := []\<rparr>),
        undeletable = (\<lambda>c. False), unwritable = (\<lambda>n. n = ''output.docx''), next_array = 1\<rparr>,
      arrays = (\<lambda>a. [])(0 := [1, 2, 3])\<rparr>"

definition readonly_log :: "(handle, nat, host_error) log" where
  "readonly_log =
     [(Call_OpenFile ''report.docx'', Done),
      (Call_GetDocument, Handle ActiveDocument),
      (Call_GetAllComments ActiveDocument, Array 0 [1, 2, 3]),
      (Call_Delete 1, Done), (Call_Delete 2, Done), (Call_Delete 3, Done),
      (Call_SaveFile ''docx'' ''output.docx'', Threw SaveFailure)]"

definition draft_world :: editor_world where
  "draft_world =
     start_world [''report.docx'' \<mapsto> \<lparr>body = ''Draft'', comments = [1, 2, 3]\<rparr>, ''notes.docx'' \<mapsto> budget_doc]
       (\<lambda>c. False) (\<lambda>n. False)"

section \<open>Properties of the script\<close>

subsection \<open>One call, and the loop\<close>

lemma invoke_cases:
  obtains (threw) e w' where "op (fst s) = (Inl e, w')"
      "invoke c op answer s = (Inl (HostFailure e), (w', snd s @ [(c, Threw e)]))"
  | (returned) a w' where "op (fst s) = (Inr a, w')"
      "invoke c op answer s = (Inr a, (w', snd s @ [(c, answer a w')]))"
proof (cases "op (fst s)")
  case (Pair r w')
  show ?thesis
  proof (cases r)
    case (Inl e)
    with Pair show ?thesis by (intro threw[of e w']) (simp_all add: invoke_def)
  next
    case (Inr a)
    with Pair show ?thesis by (intro returned[of a w']) (simp_all add: invoke_def)
  qed
qed

lemma invoke_Delete_arrays:
  assumes "snapshot_stable H" and "invoke c (Delete H x) answer s = (r, s')"
  shows "arrays (fst s') = arrays (fst s)"
proof -
  from assms(1) have "arrays (snd (Delete H x (fst s))) = arrays (fst s)"
    by (simp add: snapshot_stable_def)
  with assms(2) show ?thesis
    by (auto simp: invoke_def split: prod.splits sum.splits)
qed

text \<open>
  With a snapshot the loop ends, and it is the loop over the list the array held when
  the loop began. The measure is the number of entries still ahead of \<open>i\<close>.
\<close>

lemma delete_loop_stable:
  assumes "snapshot_stable H"
  shows "delete_loop H a i s = Some (delete_each H (drop i (arrays (fst s) a)) s)"
proof (induction "length (arrays (fst s) a) - i" arbitrary: i s)
  case 0
  then show ?case by (subst delete_loop.simps) simp
next
  case (Suc n)
  let ?cs = "arrays (fst s) a"
  from Suc.hyps(2) have lt: "i < length ?cs" by simp
  then have dr: "drop i ?cs = ?cs ! i # drop (Suc i) ?cs"
    by (simp add: Cons_nth_drop_Suc)
  obtain r s' where inv: "invoke (Call_Delete (?cs ! i)) (Delete H (?cs ! i)) (\<lambda>u w. Done) s = (r, s')"
    by (cases "invoke (Call_Delete (?cs ! i)) (Delete H (?cs ! i)) (\<lambda>u w. Done) s") auto
  from invoke_Delete_arrays[OF assms inv] have same: "arrays (fst s') = arrays (fst s)" .
  show ?case
  proof (cases r)
    case (Inl f)
    with inv lt dr show ?thesis by (subst delete_loop.simps) simp
  next
    case (Inr u)
    from Suc.hyps(2) same have "n = length (arrays (fst s') a) - Suc i" by simp
    from Suc.hyps(1)[OF this] same
    have "delete_loop H a (Suc i) s' = Some (delete_each H (drop (Suc i) ?cs) s')" by simp
    with Inr inv lt dr show ?thesis by (subst delete_loop.simps) simp
  qed
qed

lemma delete_each_log:
  assumes "delete_each H cs s = (r, s')"
  shows "(r = Inr () \<and> snd s' = snd s @ deleted cs) \<or>
         (\<exists>k e. k < length cs \<and> r = Inl (HostFailure e) \<and>
            snd s' = snd s @ deleted (take k cs) @ [(Call_Delete (cs ! k), Threw e)])"
  using assms
proof (induction cs arbitrary: s)
  case Nil
  then show ?case by auto
next
  case (Cons c cs)
  show ?case
  proof (cases rule: invoke_cases[of "Delete H c" s "Call_Delete c" "\<lambda>u w. Done"])
    case (threw e w')
    with Cons.prems have "r = Inl (HostFailure e)" "snd s' = snd s @ [(Call_Delete c, Threw e)]"
      by auto
    then show ?thesis by (intro disjI2 exI[of _ 0] exI[of _ e]) simp
  next
    case (returned u w')
    let ?s1 = "(w', snd s @ [(Call_Delete c, Done)])"
    from returned Cons.prems have "delete_each H cs ?s1 = (r, s')" by simp
    from Cons.IH[OF this] show ?thesis
    proof (elim disjE exE conjE)
      assume "r = Inr ()" "snd s' = snd ?s1 @ deleted cs"
      then show ?thesis by simp
    next
      fix k e
      assume "k < length cs" "r = Inl (HostFailure e)"
        "snd s' = snd ?s1 @ deleted (take k cs) @ [(Call_Delete (cs ! k), Threw e)]"
      then show ?thesis by (intro disjI2 exI[of _ "Suc k"] exI[of _ e]) simp
    qed
  qed
qed

text \<open>
  Whatever the editor does to the array: if the loop returns, it has logged calls of
  \<open>Delete\<close> only, each answered before the next, the last one alone possibly an exception.
\<close>

lemma delete_loop_log:
  assumes "delete_loop H a i s = Some (r, s')"
  shows "\<exists>cs. (r = Inr () \<and> snd s' = snd s @ deleted cs) \<or>
         (\<exists>c e. r = Inl (HostFailure e) \<and> snd s' = snd s @ deleted cs @ [(Call_Delete c, Threw e)])"
proof -
  let ?P = "\<lambda>(H :: ('h, 'd, 'c, 'e) host) (a :: addr) (i :: nat) (s :: ('h, 'd, 'c, 'e) js_state)
              (y :: ('h, 'd, 'c, 'e, unit) step).
      \<exists>cs. (fst y = Inr () \<and> snd (snd y) = snd s @ deleted cs) \<or>
         (\<exists>c e. fst y = Inl (HostFailure e) \<and> snd (snd y) = snd s @ deleted cs @ [(Call_Delete c, Threw e)])"
  have "?P H a i s (r, s')"
  proof (rule delete_loop.raw_induct[where P = ?P, OF _ assms])
    fix loop and H :: "('h, 'd, 'c, 'e) host" and a i s y
    assume IH: "\<And>H a i s y. loop H a i s = Some y \<Longrightarrow> ?P H a i s y"
      and eq: "(if i < length (arrays (fst s) a) then
         (case invoke (Call_Delete (arrays (fst s) a ! i)) (Delete H (arrays (fst s) a ! i)) (\<lambda>u w. Done) s of
            (Inl f, s') \<Rightarrow> Some (Inl f, s')
          | (Inr u, s') \<Rightarrow> loop H a (i + 1) s')
         else Some (Inr (), s)) = Some y"
    show "?P H a i s y"
    proof (cases "i < length (arrays (fst s) a)")
      case False
      with eq have "y = (Inr (), s)" by simp
      then show ?thesis by (intro exI[of _ "[]"]) simp
    next
      case True
      let ?c = "arrays (fst s) a ! i"
      show ?thesis
      proof (cases rule: invoke_cases[of "Delete H ?c" s "Call_Delete ?c" "\<lambda>u w. Done"])
        case (threw e w')
        with True eq have "y = (Inl (HostFailure e), w', snd s @ [(Call_Delete ?c, Threw e)])" by simp
        then show ?thesis by (intro exI[of _ "[]"]) simp
      next
        case (returned u w')
        let ?s1 = "(w', snd s @ [(Call_Delete ?c, Done)])"
        from returned True eq have "loop H a (i + 1) ?s1 = Some y" by simp
        from IH[OF this] obtain cs where
          "(fst y = Inr () \<and> snd (snd y) = snd ?s1 @ deleted cs) \<or>
           (\<exists>c e. fst y = Inl (HostFailure e) \<and> snd (snd y) = snd ?s1 @ deleted cs @ [(Call_Delete c, Threw e)])"
          by blast
        then show ?thesis by (intro exI[of _ "?c # cs"]) auto
      qed
    qed
  qed
  then show ?thesis by simp
qed

subsection \<open>The cases of a run\<close>

lemma and_then_Some [simp]:
  "and_then (Some (Inl f, s)) k = Some (Inl f, s)"
  "and_then (Some (Inr a, s)) k = k a s"
  "and_then None k = None"
  by (simp_all add: and_then_def)

lemma and_then_eq_Some:
  assumes "and_then m k = Some y"
  obtains (failed) f s where "m = Some (Inl f, s)" "y = (Inl f, s)"
  | (continued) a s where "m = Some (Inr a, s)" "k a s = Some y"
  using assms by (auto simp: and_then_def split: option.splits prod.splits sum.splits)

lemma deleted_inject [simp]: "(deleted cs = deleted cs') = (cs = cs')"
  by (rule inj_map_eq_map) (simp add: inj_on_def)

lemma select_accessor_cases:
  fixes H :: "('h, 'd, 'c, 'e) host"
  obtains (unsupported) "ext \<notin> supported" "select_accessor H ext s = (Inr None, s)"
  | (threw) e w' where "ext \<in> supported"
      "select_accessor H ext s = (Inl (HostFailure e), (w', snd s @ [(accessor_call ext, Threw e)]))"
  | (returned) d w' where "ext \<in> supported"
      "select_accessor H ext s = (Inr (Some d), (w', snd s @ [(accessor_call ext, Handle d)]))"
proof -
  consider (word) "ext = ''doc'' \<or> ext = ''docx''"
    | (sheet) "\<not> (ext = ''doc'' \<or> ext = ''docx'')" "ext = ''xls'' \<or> ext = ''xlsx''"
    | (other) "\<not> (ext = ''doc'' \<or> ext = ''docx'')" "\<not> (ext = ''xls'' \<or> ext = ''xlsx'')"
    by blast
  then show ?thesis
  proof cases
    case word
    then have sup: "ext \<in> supported"
      by (auto simp: supported_def)
    show ?thesis
    proof (cases rule: invoke_cases[of "Api_GetDocument H" s Call_GetDocument "\<lambda>d w. Handle d"])
      case (threw e w')
      with word sup show ?thesis
        by (intro that(2)[of e w']) (simp_all add: select_accessor_def accessor_call_def)
    next
      case (returned d w')
      with word sup show ?thesis
        by (intro that(3)[of d w']) (simp_all add: select_accessor_def accessor_call_def)
    qed
  next
    case sheet
    then have sup: "ext \<in> supported"
      by (auto simp: supported_def)
    show ?thesis
    proof (cases rule: invoke_cases[of "Api_GetActiveSheet H" s Call_GetActiveSheet "\<lambda>d w. Handle d"])
      case (threw e w')
      with sheet sup show ?thesis
        by (intro that(2)[of e w']) (simp_all add: select_accessor_def accessor_call_def)
    next
      case (returned d w')
      with sheet sup show ?thesis
        by (intro that(3)[of d w']) (simp_all add: select_accessor_def accessor_call_def)
    qed
  next
    case other
    then show ?thesis
      by (intro that(1)) (auto simp: supported_def select_accessor_def)
  qed
qed

lemma finish_cases:
  fixes H :: "('h, 'd, 'c, 'e) host" and s :: "('h, 'd, 'c, 'e) js_state"
  obtains (save_failed) e w5 where
      "builder_SaveFile H ext (''output.'' @ ext) (fst s) = (Inl e, w5)"
      "finish H ext s = Some (Inl (HostFailure e), (w5, snd s @ [(saving ext, Threw e)]))"
  | (close_failed) e w5 w6 where
      "builder_SaveFile H ext (''output.'' @ ext) (fst s) = (Inr (), w5)"
      "builder_CloseFile H w5 = (Inl e, w6)"
      "finish H ext s = Some (Inl (HostFailure e),
         (w6, snd s @ [(saving ext, Done), (Call_CloseFile, Threw e)]))"
  | (completed) w5 w6 where
      "builder_SaveFile H ext (''output.'' @ ext) (fst s) = (Inr (), w5)"
      "builder_CloseFile H w5 = (Inr (), w6)"
      "finish H ext s = Some (Inr (),
         (w6, snd s @ [(saving ext, Done), (Call_CloseFile, Done)]))"
proof (cases rule: invoke_cases[of "builder_SaveFile H ext (''output.'' @ ext)" s
          "saving ext" "\<lambda>u w. Done"])
  case (threw e w5)
  then show ?thesis by (intro save_failed[of e w5]) (simp_all add: finish_def)
next
  case (returned u w5)
  let ?s5 = "(w5, snd s @ [(saving ext, Done)])"
  show ?thesis
  proof (cases rule: invoke_cases[of "builder_CloseFile H" ?s5 Call_CloseFile "\<lambda>u w. Done"])
    case (threw e w6)
    with returned show ?thesis by (intro close_failed[of w5 e w6]) (simp_all add: finish_def)
  next
    case inner: (returned u' w6)
    with returned show ?thesis by (intro completed[of w5 w6]) (simp_all add: finish_def)
  qed
qed

lemma convert_unfold:
  "convert H fileUrl ext w =
     and_then (Some (invoke (Call_OpenFile fileUrl) (builder_OpenFile H fileUrl) (\<lambda>u w. Done) (w, []))) (\<lambda>u s1.
     and_then (Some (select_accessor H ext s1)) (\<lambda>oDocument s2.
     case oDocument of
       None \<Rightarrow> Some (Inl TypeError, s2)
     | Some d \<Rightarrow>
     and_then (Some (invoke (Call_GetAllComments d) (GetAllComments H d) (\<lambda>a w. Array a (arrays w a)) s2)) (\<lambda>aComments s3.
     and_then (delete_loop H aComments 0 s3) (\<lambda>u s4. finish H ext s4))))"
  unfolding convert_def finish_def by (rule refl)

text \<open>How far a run gets before the loop, and what is left to do from there.\<close>

lemma convert_prefix_cases:
  fixes H :: "('h, 'd, 'c, 'e) host"
  obtains (open_failed) e w1 where
      "builder_OpenFile H fileUrl w = (Inl e, w1)"
      "convert H fileUrl ext w = Some (Inl (HostFailure e), (w1, [(Call_OpenFile fileUrl, Threw e)]))"
  | (unsupported) w1 where
      "builder_OpenFile H fileUrl w = (Inr (), w1)" "ext \<notin> supported"
      "convert H fileUrl ext w = Some (Inl TypeError, (w1, [(Call_OpenFile fileUrl, Done)]))"
  | (accessor_failed) e w1 w2 where
      "builder_OpenFile H fileUrl w = (Inr (), w1)" "ext \<in> supported"
      "convert H fileUrl ext w = Some (Inl (HostFailure e),
          (w2, [(Call_OpenFile fileUrl, Done), (accessor_call ext, Threw e)]))"
  | (enumerate_failed) d e w1 w2 w3 where
      "builder_OpenFile H fileUrl w = (Inr (), w1)" "ext \<in> supported"
      "GetAllComments H d w2 = (Inl e, w3)"
      "convert H fileUrl ext w = Some (Inl (HostFailure e),
          (w3, [(Call_OpenFile fileUrl, Done), (accessor_call ext, Handle d), (Call_GetAllComments d, Threw e)]))"
  | (enumerated) d a w1 w2 w3 where
      "builder_OpenFile H fileUrl w = (Inr (), w1)" "ext \<in> supported"
      "GetAllComments H d w2 = (Inr a, w3)"
      "convert H fileUrl ext w =
         and_then (delete_loop H a 0 (w3, prelude fileUrl ext d a (arrays w3 a)))
           (\<lambda>u s4. finish H ext s4)"
proof (cases rule: invoke_cases[of "builder_OpenFile H fileUrl" "(w, [])"
         "Call_OpenFile fileUrl :: ('d, 'c) call" "\<lambda>u w. Done"])
  case (threw e w1)
  then show ?thesis by (intro open_failed[of e w1]) (simp_all add: convert_unfold)
next
  case opened: (returned u w1)
  let ?s1 = "(w1, [(Call_OpenFile fileUrl, Done)])"
  show ?thesis
  proof (cases rule: select_accessor_cases[of ext H ?s1])
    case unsupported
    with opened show ?thesis by (intro that(2)[of w1]) (simp_all add: convert_unfold)
  next
    case (threw e w2)
    with opened show ?thesis by (intro accessor_failed[of w1 e w2]) (simp_all add: convert_unfold)
  next
    case selected: (returned d w2)
    let ?s2 = "(w2, [(Call_OpenFile fileUrl, Done), (accessor_call ext, Handle d)])"
    show ?thesis
    proof (cases rule: invoke_cases[of "GetAllComments H d" ?s2 "Call_GetAllComments d" "\<lambda>a w. Array a (arrays w a)"])
      case (threw e w3)
      with opened selected show ?thesis
        by (intro enumerate_failed[of w1 d w2 e w3]) (simp_all add: convert_unfold)
    next
      case (returned a w3)
      with opened selected show ?thesis
        by (intro enumerated[of w1 d w2 a w3]) (simp_all add: convert_unfold)
    qed
  qed
qed

text \<open>
  Every run that returns is one of eight. With a snapshot, the comments deleted are the
  snapshot's, in order: all of them once the loop is through, and up to the one whose
  \<open>Delete\<close> threw otherwise.
\<close>

lemma convert_cases [consumes 1, case_names open_failed unsupported accessor_failed enumerate_failed
    delete_failed save_failed close_failed completed]:
  fixes H :: "('h, 'd, 'c, 'e) host"
  assumes run: "convert H fileUrl ext w = Some (r, w', tr)"
  obtains e where "fst (builder_OpenFile H fileUrl w) = Inl e" "r = Inl (HostFailure e)"
      "tr = [(Call_OpenFile fileUrl, Threw e)]"
  | "fst (builder_OpenFile H fileUrl w) = Inr ()" "ext \<notin> supported" "r = Inl TypeError"
      "tr = [(Call_OpenFile fileUrl, Done)]"
  | e where "fst (builder_OpenFile H fileUrl w) = Inr ()" "ext \<in> supported" "r = Inl (HostFailure e)"
      "tr = [(Call_OpenFile fileUrl, Done), (accessor_call ext, Threw e)]"
  | d e where "fst (builder_OpenFile H fileUrl w) = Inr ()" "ext \<in> supported" "r = Inl (HostFailure e)"
      "tr = [(Call_OpenFile fileUrl, Done), (accessor_call ext, Handle d), (Call_GetAllComments d, Threw e)]"
  | d a cs0 cs c e where "fst (builder_OpenFile H fileUrl w) = Inr ()" "ext \<in> supported"
      "r = Inl (HostFailure e)"
      "tr = prelude fileUrl ext d a cs0 @ deleted cs @ [(Call_Delete c, Threw e)]"
      "snapshot_stable H \<Longrightarrow> length cs < length cs0 \<and> cs = take (length cs) cs0 \<and> c = cs0 ! length cs"
  | d a cs0 cs e where "fst (builder_OpenFile H fileUrl w) = Inr ()" "ext \<in> supported"
      "r = Inl (HostFailure e)"
      "tr = prelude fileUrl ext d a cs0 @ deleted cs @ [(saving ext, Threw e)]"
      "snapshot_stable H \<Longrightarrow> cs = cs0"
  | d a cs0 cs e where "fst (builder_OpenFile H fileUrl w) = Inr ()" "ext \<in> supported"
      "r = Inl (HostFailure e)"
      "tr = prelude fileUrl ext d a cs0 @ deleted cs @ [(saving ext, Done), (Call_CloseFile, Threw e)]"
      "snapshot_stable H \<Longrightarrow> cs = cs0"
  | d a cs0 cs where "fst (builder_OpenFile H fileUrl w) = Inr ()" "ext \<in> supported" "r = Inr ()"
      "tr = prelude fileUrl ext d a cs0 @ deleted cs @ [(saving ext, Done), (Call_CloseFile, Done)]"
      "snapshot_stable H \<Longrightarrow> cs = cs0"
proof (cases rule: convert_prefix_cases[of H fileUrl w ext])
  case (open_failed e w1)
  with run show ?thesis by (intro that(1)) auto
next
  case (unsupported w1)
  with run show ?thesis by (intro that(2)) auto
next
  case (accessor_failed e w1 w2)
  with run show ?thesis by (intro that(3)) auto
next
  case (enumerate_failed d e w1 w2 w3)
  with run show ?thesis by (intro that(4)) auto
next
  case (enumerated d a w1 w2 w3)
  let ?cs0 = "arrays w3 a"
  let ?s3 = "(w3, prelude fileUrl ext d a ?cs0) :: ('h, 'd, 'c, 'e) js_state"
  from run enumerated(4)
  have "and_then (delete_loop H a 0 ?s3) (\<lambda>u s4. finish H ext s4) = Some (r, w', tr)" by simp
  then show ?thesis
  proof (cases rule: and_then_eq_Some)
    case (failed f s4)
    then have loop: "delete_loop H a 0 ?s3 = Some (r, w', tr)" and r: "r = Inl f" by simp_all
    from delete_loop_log[OF loop] r obtain cs c e where
      e: "r = Inl (HostFailure e)" and tr: "tr = prelude fileUrl ext d a ?cs0 @ deleted cs @ [(Call_Delete c, Threw e)]"
      by auto
    have "length cs < length ?cs0 \<and> cs = take (length cs) ?cs0 \<and> c = ?cs0 ! length cs" if "snapshot_stable H"
    proof -
      from delete_loop_stable[OF that, of a 0 ?s3] loop
      have "delete_each H ?cs0 ?s3 = (r, w', tr)" by simp
      from delete_each_log[OF this] r obtain k e' where k: "k < length ?cs0"
        and tr': "tr = prelude fileUrl ext d a ?cs0 @ deleted (take k ?cs0) @ [(Call_Delete (?cs0 ! k), Threw e')]"
        by auto
      from tr tr' have "deleted cs @ [(Call_Delete c, Threw e)] =
          deleted (take k ?cs0) @ [(Call_Delete (?cs0 ! k), Threw e')]" by simp
      then have cs: "cs = take k ?cs0" and c: "c = ?cs0 ! k" by auto
      with k have "length cs = k" by simp
      with k cs c show ?thesis by simp
    qed
    with enumerated(1,2) e tr show ?thesis by (intro that(5)[of e d a ?cs0 cs c]) simp_all
  next
    case (continued u s4)
    from delete_loop_log[OF continued(1)] obtain cs where
      s4: "snd s4 = prelude fileUrl ext d a ?cs0 @ deleted cs" by auto
    have st: "cs = ?cs0" if "snapshot_stable H"
    proof -
      from delete_loop_stable[OF that, of a 0 ?s3] continued(1)
      have "delete_each H ?cs0 ?s3 = (Inr u, s4)" by simp
      from delete_each_log[OF this] s4 show ?thesis by auto
    qed
    show ?thesis
    proof (cases rule: finish_cases[of H ext s4])
      case (save_failed e w5)
      with continued(2) s4 enumerated(1,2) st show ?thesis
        by (intro that(6)[of e d a ?cs0 cs]) simp_all
    next
      case (close_failed e w5 w6)
      with continued(2) s4 enumerated(1,2) st show ?thesis
        by (intro that(7)[of e d a ?cs0 cs]) simp_all
    next
      case (completed w5 w6)
      with continued(2) s4 enumerated(1,2) st show ?thesis
        by (intro that(8)[of d a ?cs0 cs]) simp_all
    qed
  qed
qed

lemma convert_terminates:
  fixes H :: "('h, 'd, 'c, 'e) host"
  assumes "snapshot_stable H"
  shows "convert H fileUrl ext w \<noteq> None"
proof (cases rule: convert_prefix_cases[of H fileUrl w ext])
  case (enumerated d a w1 w2 w3)
  let ?s3 = "(w3, prelude fileUrl ext d a (arrays w3 a)) :: ('h, 'd, 'c, 'e) js_state"
  obtain r4 s4 where each: "delete_each H (arrays w3 a) ?s3 = (r4, s4)"
    by (cases "delete_each H (arrays w3 a) ?s3") auto
  with delete_loop_stable[OF assms, of a 0 ?s3]
  have loop: "delete_loop H a 0 ?s3 = Some (r4, s4)" by simp
  show ?thesis
  proof (cases r4)
    case (Inl f)
    with loop enumerated(4) show ?thesis by simp
  next
    case (Inr u)
    with loop enumerated(4) show ?thesis
      by (cases rule: finish_cases[of H ext s4]) simp_all
  qed
qed simp_all

subsection \<open>Reading the log of a run\<close>

lemma deletions_append [simp]: "deletions (xs @ ys) = deletions xs @ deletions ys"
  by (simp add: deletions_def)

lemma deletions_Cons [simp]:
  "deletions ((c, rsp) # tr) = (case c of Call_Delete x \<Rightarrow> [x] | _ \<Rightarrow> []) @ deletions tr"
  by (simp add: deletions_def)

lemma deletions_Nil [simp]: "deletions [] = []"
  by (simp add: deletions_def)

lemma deletions_deleted [simp]: "deletions (deleted cs) = cs"
  by (induction cs) simp_all

lemma snapshots_append [simp]: "snapshots (xs @ ys) = snapshots xs @ snapshots ys"
  by (simp add: snapshots_def)

lemma snapshots_Cons [simp]:
  "snapshots ((c, rsp) # tr) = (case rsp of Array a cs \<Rightarrow> [cs] | _ \<Rightarrow> []) @ snapshots tr"
  by (simp add: snapshots_def)

lemma snapshots_Nil [simp]: "snapshots [] = []"
  by (simp add: snapshots_def)

lemma snapshots_deleted [simp]: "snapshots (deleted cs) = []"
  by (induction cs) simp_all

lemma saves_append [simp]: "saves (xs @ ys) = saves xs @ saves ys"
  by (simp add: saves_def)

lemma saves_Cons [simp]:
  "saves ((c, rsp) # tr) = (case c of Call_SaveFile fmt name \<Rightarrow> [(fmt, name)] | _ \<Rightarrow> []) @ saves tr"
  by (simp add: saves_def)

lemma saves_Nil [simp]: "saves [] = []"
  by (simp add: saves_def)

lemma saves_deleted [simp]: "saves (deleted cs) = []"
  by (induction cs) simp_all

lemma accessor_call_simps [simp]:
  "is_accessor (accessor_call ext)" "\<not> is_enumeration (accessor_call ext)" "\<not> is_deletion (accessor_call ext)"
  "accessor_call ext \<noteq> Call_CloseFile" "accessor_call ext \<noteq> Call_SaveFile fmt name"
  "accessor_call ext \<noteq> Call_Delete c" "accessor_call ext \<noteq> Call_OpenFile u"
  "accessor_call ext \<noteq> Call_GetAllComments d"
  by (simp_all add: accessor_call_def)

lemma accessor_call_cases [simp]:
  "(case accessor_call ext of Call_SaveFile fmt name \<Rightarrow> [(fmt, name)] | _ \<Rightarrow> []) = []"
  "(case accessor_call ext of Call_Delete x \<Rightarrow> [x] | _ \<Rightarrow> []) = []"
  by (simp_all add: accessor_call_def)

lemma filter_deleted [simp]:
  "filter is_accessor (map fst (deleted cs)) = []"
  "filter is_enumeration (map fst (deleted cs)) = []"
  "filter (\<lambda>c. is_enumeration c \<or> is_deletion c) (map fst (deleted cs)) = map Call_Delete cs"
  by (induction cs) simp_all

lemma deleted_no_throw [simp]: "x \<in> set (deleted cs) \<Longrightarrow> \<not> is_throw (snd x)"
  by auto

lemma lower_supported:
  "ext \<in> {''doc'', ''docx'', ''xls'', ''xlsx''} \<Longrightarrow> map ascii_lower ext = ext"
  by (auto simp: ascii_lower_def)

text \<open>
  With a snapshot, the calls of a run are the first so many of one sequence, which the
  two strings, the handle and the snapshot fix; and a log holds at most one handle and one
  snapshot.
\<close>

lemma run_calls:
  fixes H :: "('h, 'd, 'c, 'e) host"
  assumes run: "convert H fileUrl ext w = Some (r, w', tr)" and st: "snapshot_stable H"
    and D: "\<And>d. Handle d \<in> snd ` set tr \<Longrightarrow> d = D"
    and CS: "\<And>a cs. Array a cs \<in> snd ` set tr \<Longrightarrow> cs = CS"
  shows "map fst tr = take (length tr)
           ([Call_OpenFile fileUrl, accessor_call ext, Call_GetAllComments D] @ map Call_Delete CS @
            [saving ext, Call_CloseFile])"
  using run
proof (cases rule: convert_cases)
  case (enumerate_failed d e)
  with D[of d] show ?thesis by simp
next
  case (delete_failed d a cs0 cs c e)
  with D[of d] CS[of a cs0] have [simp]: "d = D" "cs0 = CS" by simp_all
  from delete_failed(5)[OF st] have k: "length cs < length CS" and cs: "cs = take (length cs) CS"
    and c: "c = CS ! length cs" by simp_all
  from k have "take (Suc (length cs)) CS = take (length cs) CS @ [CS ! length cs]"
    by (rule take_Suc_conv_app_nth)
  with cs[symmetric] c have "take (Suc (length cs)) CS = cs @ [c]" by simp
  then have "map Call_Delete cs @ [Call_Delete c] = map Call_Delete (take (Suc (length cs)) CS)"
    by simp
  with delete_failed(4) k show ?thesis by (simp add: comp_def take_map)
next
  case (save_failed d a cs0 cs e)
  with D[of d] CS[of a cs0] st show ?thesis by (simp add: comp_def)
next
  case (close_failed d a cs0 cs e)
  with D[of d] CS[of a cs0] st show ?thesis by (simp add: comp_def)
next
  case (completed d a cs0 cs)
  with D[of d] CS[of a cs0] st show ?thesis by (simp add: comp_def)
qed simp_all

lemma run_answers:
  fixes H :: "('h, 'd, 'c, 'e) host"
  assumes run: "convert H fileUrl ext w = Some (r, w', tr)"
  shows "\<exists>D CS. (\<forall>d. Handle d \<in> snd ` set tr \<longrightarrow> d = D) \<and> (\<forall>a cs. Array a cs \<in> snd ` set tr \<longrightarrow> cs = CS)"
  using run
proof (cases rule: convert_cases)
  case (enumerate_failed d e)
  then show ?thesis by (intro exI[of _ d]) auto
next
  case (delete_failed d a cs0 cs c e)
  then show ?thesis by (intro exI[of _ d] exI[of _ cs0]) auto
next
  case (save_failed d a cs0 cs e)
  then show ?thesis by (intro exI[of _ d] exI[of _ cs0]) auto
next
  case (close_failed d a cs0 cs e)
  then show ?thesis by (intro exI[of _ d] exI[of _ cs0]) auto
next
  case (completed d a cs0 cs)
  then show ?thesis by (intro exI[of _ d] exI[of _ cs0]) auto
qed auto

subsection \<open>The editor of the specification\<close>

lemma editor_host_simps [simp]:
  "builder_OpenFile editor_host = editor_open"
  "Api_GetDocument editor_host = editor_accessor"
  "Api_GetActiveSheet editor_host = editor_accessor"
  "GetAllComments editor_host = editor_comments"
  "Delete editor_host = editor_delete"
  "builder_SaveFile editor_host = editor_save"
  "builder_CloseFile editor_host = editor_close"
  by (simp_all add: editor_host_def)

lemma editor_stable: "snapshot_stable editor_host"
  by (simp add: snapshot_stable_def editor_delete_def split: option.splits)

lemma editor_delete_each_files:
  "delete_each editor_host cs s = (r, s') \<Longrightarrow>
     files (host_state (fst s')) = files (host_state (fst s)) \<and>
     undeletable (host_state (fst s')) = undeletable (host_state (fst s)) \<and>
     unwritable (host_state (fst s')) = unwritable (host_state (fst s))"
proof (induction cs arbitrary: s)
  case Nil
  then show ?case by simp
next
  case (Cons c cs)
  show ?case
  proof (cases rule: invoke_cases[of "editor_delete c" s "Call_Delete c :: (handle, nat) call" "\<lambda>u w. Done"])
    case (threw e w1)
    with Cons.prems show ?thesis
      by (auto simp: editor_delete_def split: if_splits option.splits)
  next
    case (returned u w1)
    with Cons.prems have "delete_each editor_host cs (w1, snd s @ [(Call_Delete c, Done)]) = (r, s')"
      by simp
    from Cons.IH[OF this] returned(1) show ?thesis
      by (auto simp: editor_delete_def split: if_splits option.splits)
  qed
qed

lemma editor_delete_each_ok:
  assumes "session (host_state (fst s)) = Some doc"
    and "\<forall>c \<in> set cs. \<not> undeletable (host_state (fst s)) c"
  shows "delete_each editor_host cs s =
           (Inr (),
            (fst s)\<lparr>host_state := (host_state (fst s))\<lparr>session := Some (doc\<lparr>comments := fold removeAll cs (comments doc)\<rparr>)\<rparr>\<rparr>,
            snd s @ deleted cs)"
  using assms
proof (induction cs arbitrary: s doc)
  case Nil
  then show ?case by (cases s) simp
next
  case (Cons c cs)
  let ?doc1 = "doc\<lparr>comments := removeAll c (comments doc)\<rparr>"
  let ?s1 = "((fst s)\<lparr>host_state := (host_state (fst s))\<lparr>session := Some ?doc1\<rparr>\<rparr>, snd s @ [(Call_Delete c, Done)])"
  from Cons.prems have inv: "invoke (Call_Delete c) (editor_delete c) (\<lambda>u w. Done) s = (Inr (), ?s1)"
    by (simp add: invoke_def editor_delete_def)
  from Cons.prems have "delete_each editor_host cs ?s1 =
      (Inr (), (fst ?s1)\<lparr>host_state := (host_state (fst ?s1))\<lparr>session := Some (?doc1\<lparr>comments := fold removeAll cs (comments ?doc1)\<rparr>)\<rparr>\<rparr>,
       snd ?s1 @ deleted cs)"
    by (intro Cons.IH) simp_all
  with inv show ?case by simp
qed

lemma editor_delete_each_locked:
  assumes "session (host_state (fst s)) = Some doc"
    and "\<exists>c \<in> set cs. undeletable (host_state (fst s)) c"
  shows "fst (delete_each editor_host cs s) = Inl (HostFailure DeletionFailure)"
  using assms
proof (induction cs arbitrary: s doc)
  case Nil
  then show ?case by simp
next
  case (Cons c cs)
  show ?case
  proof (cases "undeletable (host_state (fst s)) c")
    case True
    then show ?thesis by (simp add: invoke_def editor_delete_def)
  next
    case False
    let ?doc1 = "doc\<lparr>comments := removeAll c (comments doc)\<rparr>"
    let ?s1 = "((fst s)\<lparr>host_state := (host_state (fst s))\<lparr>session := Some ?doc1\<rparr>\<rparr>, snd s @ [(Call_Delete c, Done)])"
    from False Cons.prems have inv: "invoke (Call_Delete c) (editor_delete c) (\<lambda>u w. Done) s = (Inr (), ?s1)"
      by (simp add: invoke_def editor_delete_def)
    from False Cons.prems have "fst (delete_each editor_host cs ?s1) = Inl (HostFailure DeletionFailure)"
      by (intro Cons.IH[of _ ?doc1]) auto
    with inv show ?thesis by simp
  qed
qed

lemma fold_removeAll_set: "set (fold removeAll cs xs) = set xs - set cs"
  by (induction cs arbitrary: xs) auto

lemma fold_removeAll_self [simp]: "fold removeAll cs cs = []"
  using fold_removeAll_set[of cs cs] by simp

lemma editor_run_cases [case_names missing unsupported locked readonly saved]:
  fixes w :: editor_world
  obtains "files (host_state w) fileUrl = None"
      "convert editor_host fileUrl ext w =
         Some (Inl (HostFailure ResolutionFailure), w, [(Call_OpenFile fileUrl, Threw ResolutionFailure)])"
  | doc where "files (host_state w) fileUrl = Some doc" "ext \<notin> supported"
      "convert editor_host fileUrl ext w =
         Some (Inl TypeError, w\<lparr>host_state := (host_state w)\<lparr>session := Some doc\<rparr>\<rparr>, [(Call_OpenFile fileUrl, Done)])"
  | doc w' tr where "files (host_state w) fileUrl = Some doc" "ext \<in> supported"
      "\<exists>c \<in> set (comments doc). undeletable (host_state w) c"
      "convert editor_host fileUrl ext w = Some (Inl (HostFailure DeletionFailure), w', tr)"
      "files (host_state w') = files (host_state w)"
      "\<exists>c. last tr = (Call_Delete c, Threw DeletionFailure)"
  | doc w' where "files (host_state w) fileUrl = Some doc" "ext \<in> supported"
      "\<forall>c \<in> set (comments doc). \<not> undeletable (host_state w) c"
      "unwritable (host_state w) (''output.'' @ ext)"
      "convert editor_host fileUrl ext w =
         Some (Inl (HostFailure SaveFailure), w',
               prelude fileUrl ext ActiveDocument (next_array (host_state w)) (comments doc) @
               deleted (comments doc) @ [(saving ext, Threw SaveFailure)])"
      "files (host_state w') = files (host_state w)"
      "session (host_state w') = Some (doc\<lparr>comments := []\<rparr>)"
  | doc w' where "files (host_state w) fileUrl = Some doc" "ext \<in> supported"
      "\<forall>c \<in> set (comments doc). \<not> undeletable (host_state w) c"
      "\<not> unwritable (host_state w) (''output.'' @ ext)"
      "convert editor_host fileUrl ext w =
         Some (Inr (), w',
               prelude fileUrl ext ActiveDocument (next_array (host_state w)) (comments doc) @
               deleted (comments doc) @ [(saving ext, Done), (Call_CloseFile, Done)])"
      "files (host_state w') = (files (host_state w))(''output.'' @ ext \<mapsto> doc\<lparr>comments := []\<rparr>)"
      "session (host_state w') = None"
proof (cases "files (host_state w) fileUrl")
  case None
  then show ?thesis
    by (intro that(1)) (simp_all add: convert_unfold invoke_def editor_open_def)
next
  case (Some doc)
  let ?w1 = "w\<lparr>host_state := (host_state w)\<lparr>session := Some doc\<rparr>\<rparr>"
  let ?s1 = "(?w1, [(Call_OpenFile fileUrl, Done)]) :: (editor, handle, nat, host_error) js_state"
  from Some have op: "invoke (Call_OpenFile fileUrl) (editor_open fileUrl) (\<lambda>u w. Done) (w, []) = (Inr (), ?s1)"
    by (simp add: invoke_def editor_open_def)
  show ?thesis
  proof (cases "ext \<in> supported")
    case False
    then have "select_accessor editor_host ext ?s1 = (Inr None, ?s1)"
      by (simp add: select_accessor_def supported_def)
    with op Some False show ?thesis
      by (intro that(2)[of doc]) (simp_all add: convert_unfold)
  next
    case True
    let ?a = "next_array (host_state w)"
    let ?s2 = "(?w1, [(Call_OpenFile fileUrl, Done), (accessor_call ext, Handle ActiveDocument)])
                 :: (editor, handle, nat, host_error) js_state"
    let ?w3 = "w\<lparr>host_state := (host_state w)\<lparr>session := Some doc, next_array := ?a + 1\<rparr>,
                  arrays := (arrays w)(?a := comments doc)\<rparr>"
    let ?s3 = "(?w3, prelude fileUrl ext ActiveDocument ?a (comments doc))
                 :: (editor, handle, nat, host_error) js_state"
    from True have sel: "select_accessor editor_host ext ?s1 = (Inr (Some ActiveDocument), ?s2)"
      by (auto simp: select_accessor_def supported_def accessor_call_def invoke_def editor_accessor_def)
    have enum: "invoke (Call_GetAllComments ActiveDocument) (editor_comments ActiveDocument)
                  (\<lambda>a w. Array a (arrays w a)) ?s2 = (Inr ?a, ?s3)"
      by (simp add: invoke_def editor_comments_def)
    have loop: "delete_loop editor_host ?a 0 ?s3 = Some (delete_each editor_host (comments doc) ?s3)"
      using delete_loop_stable[OF editor_stable, of ?a 0 ?s3] by simp
    from op sel enum loop have conv: "convert editor_host fileUrl ext w =
        and_then (Some (delete_each editor_host (comments doc) ?s3)) (\<lambda>u s4. finish editor_host ext s4)"
      by (simp add: convert_unfold)
    show ?thesis
    proof (cases "\<forall>c \<in> set (comments doc). \<not> undeletable (host_state w) c")
      case False
      obtain r4 w4 tr4 where each: "delete_each editor_host (comments doc) ?s3 = (r4, w4, tr4)"
        by (cases "delete_each editor_host (comments doc) ?s3") auto
      from False editor_delete_each_locked[of ?s3 doc "comments doc"] each
      have r4: "r4 = Inl (HostFailure DeletionFailure)" by simp
      from editor_delete_each_files[OF each] have "files (host_state w4) = files (host_state w)" by simp
      moreover from delete_each_log[OF each] r4
      have "\<exists>c. last tr4 = (Call_Delete c, Threw DeletionFailure)" by auto
      ultimately show ?thesis using Some True False conv each r4
        by (intro that(3)[of doc w4 tr4]) simp_all
    next
      case deletable: True
      let ?w4 = "?w3\<lparr>host_state := (host_state ?w3)\<lparr>session := Some (doc\<lparr>comments := []\<rparr>)\<rparr>\<rparr>"
      let ?tr4 = "prelude fileUrl ext ActiveDocument ?a (comments doc) @ deleted (comments doc)
                    :: (handle, nat, host_error) log"
      from deletable editor_delete_each_ok[of ?s3 doc "comments doc"]
      have each: "delete_each editor_host (comments doc) ?s3 = (Inr (), ?w4, ?tr4)" by simp
      show ?thesis
      proof (cases "unwritable (host_state w) (''output.'' @ ext)")
        case True
        then have "finish editor_host ext (?w4, ?tr4) =
            Some (Inl (HostFailure SaveFailure), ?w4, ?tr4 @ [(saving ext, Threw SaveFailure)])"
          by (simp add: finish_def invoke_def editor_save_def)
        with Some \<open>ext \<in> supported\<close> deletable True conv each show ?thesis
          by (intro that(4)[of doc ?w4]) simp_all
      next
        case False
        let ?w6 = "?w4\<lparr>host_state := (host_state ?w4)
                     \<lparr>files := (files (host_state w))(''output.'' @ ext \<mapsto> doc\<lparr>comments := []\<rparr>), session := None\<rparr>\<rparr>"
        from False have "finish editor_host ext (?w4, ?tr4) =
            Some (Inr (), ?w6, ?tr4 @ [(saving ext, Done), (Call_CloseFile, Done)])"
          by (simp add: finish_def invoke_def editor_save_def editor_close_def)
        with Some \<open>ext \<in> supported\<close> deletable False conv each show ?thesis
          by (intro that(5)[of doc ?w6]) simp_all
      qed
    qed
  qed
qed

subsection \<open>The concrete runs, evaluated\<close>

lemmas run_defs =
  convert_def and_then_def invoke_def select_accessor_def editor_host_def start_world_def
  editor_open_def editor_accessor_def editor_comments_def editor_delete_def
  editor_save_def editor_close_def delete_loop.simps

lemma report_run:
  "convert editor_host ''report.docx'' ''docx'' report_world = Some (Inr (), report_done, report_log)"
  by (simp add: run_defs report_world_def report_doc_def report_done_def report_log_def)

lemma report_pdf_run:
  "convert editor_host ''report.docx'' ''pdf'' report_world =
     Some (Inl TypeError, report_opened, [(Call_OpenFile ''report.docx'', Done)])"
  by (simp add: run_defs report_world_def report_doc_def report_opened_def)

lemma budget_run:
  "convert editor_host ''budget.xlsx'' ''xlsx'' budget_world = Some (Inr (), budget_done, budget_log)"
  by (simp add: run_defs budget_world_def budget_doc_def budget_done_def budget_log_def)

lemma locked_run:
  "convert editor_host ''report.docx'' ''docx'' locked_world =
     Some (Inl (HostFailure DeletionFailure), locked_end, locked_log)"
  by (simp add: run_defs locked_world_def report_doc_def locked_end_def locked_log_def)

lemma readonly_run:
  "convert editor_host ''report.docx'' ''docx'' readonly_world =
     Some (Inl (HostFailure SaveFailure), readonly_end, readonly_log)"
  by (simp add: run_defs readonly_world_def report_doc_def readonly_end_def readonly_log_def)

lemma draft_run:
  "\<exists>draft_done. convert editor_host ''report.docx'' ''docx'' draft_world = Some (Inr (), draft_done, report_log)"
  by (simp add: run_defs draft_world_def budget_doc_def report_log_def)

subsection \<open>The log is a true record\<close>

lemma replay_append:
  "replay H (tr1 @ tr2) w = (case replay H tr1 w of None \<Rightarrow> None | Some w1 \<Rightarrow> replay H tr2 w1)"
  by (induction tr1 arbitrary: w) (auto split: prod.splits)

lemma replay_snoc:
  "replay H tr w = Some w1 \<Longrightarrow> perform H c w1 = (rsp, w2) \<Longrightarrow> replay H (tr @ [(c, rsp)]) w = Some w2"
  by (simp add: replay_append)

lemma invoke_truthful:
  assumes rec: "replay H (snd s) w = Some (fst s)"
    and inv: "invoke c op answer s = (r, s')"
    and names: "perform H c (fst s) =
      (case op (fst s) of (Inl e, w') \<Rightarrow> (Threw e, w') | (Inr a, w') \<Rightarrow> (answer a w', w'))"
  shows "replay H (snd s') w = Some (fst s')"
proof (cases rule: invoke_cases[of op s c answer])
  case (threw e w')
  with inv names have "snd s' = snd s @ [(c, Threw e)]" "fst s' = w'" "perform H c (fst s) = (Threw e, w')"
    by auto
  with rec show ?thesis by (simp add: replay_snoc)
next
  case (returned a w')
  with inv names have "snd s' = snd s @ [(c, answer a w')]" "fst s' = w'"
    "perform H c (fst s) = (answer a w', w')"
    by auto
  with rec show ?thesis by (simp add: replay_snoc)
qed

lemma select_accessor_truthful:
  assumes rec: "replay H (snd s) w = Some (fst s)" and sel: "select_accessor H ext s = (r, s')"
  shows "replay H (snd s') w = Some (fst s')"
proof -
  consider (word) "ext = ''doc'' \<or> ext = ''docx''"
    | (sheet) "\<not> (ext = ''doc'' \<or> ext = ''docx'')" "ext = ''xls'' \<or> ext = ''xlsx''"
    | (other) "\<not> (ext = ''doc'' \<or> ext = ''docx'')" "\<not> (ext = ''xls'' \<or> ext = ''xlsx'')"
    by blast
  then show ?thesis
  proof cases
    case word
    obtain r1 s1 where inv: "invoke Call_GetDocument (Api_GetDocument H) (\<lambda>d w. Handle d) s = (r1, s1)"
      by (cases "invoke Call_GetDocument (Api_GetDocument H) (\<lambda>d w. Handle d) s") auto
    from invoke_truthful[OF rec inv] have "replay H (snd s1) w = Some (fst s1)" by simp
    moreover from word inv sel have "s' = s1"
      by (auto simp: select_accessor_def split: sum.splits)
    ultimately show ?thesis by simp
  next
    case sheet
    obtain r1 s1 where inv: "invoke Call_GetActiveSheet (Api_GetActiveSheet H) (\<lambda>d w. Handle d) s = (r1, s1)"
      by (cases "invoke Call_GetActiveSheet (Api_GetActiveSheet H) (\<lambda>d w. Handle d) s") auto
    from invoke_truthful[OF rec inv] have "replay H (snd s1) w = Some (fst s1)" by simp
    moreover from sheet inv sel have "s' = s1"
      by (auto simp: select_accessor_def split: sum.splits)
    ultimately show ?thesis by simp
  next
    case other
    with sel have "s' = s" by (auto simp: select_accessor_def)
    with rec show ?thesis by simp
  qed
qed

lemma delete_loop_truthful:
  fixes H :: "('h, 'd, 'c, 'e) host" and w :: "('h, 'c) world"
  assumes loop: "delete_loop H a i s = Some (r, s')" and rec: "replay H (snd s) w = Some (fst s)"
  shows "replay H (snd s') w = Some (fst s')"
proof -
  let ?P = "\<lambda>(H :: ('h, 'd, 'c, 'e) host) (a :: addr) (i :: nat) (s :: ('h, 'd, 'c, 'e) js_state)
              (y :: ('h, 'd, 'c, 'e, unit) step).
      replay H (snd s) w = Some (fst s) \<longrightarrow> replay H (snd (snd y)) w = Some (fst (snd y))"
  have "?P H a i s (r, s')"
  proof (rule delete_loop.raw_induct[where P = ?P, OF _ loop])
    fix loop and H :: "('h, 'd, 'c, 'e) host" and a i s y
    assume IH: "\<And>H a i s y. loop H a i s = Some y \<Longrightarrow> ?P H a i s y"
      and eq: "(if i < length (arrays (fst s) a) then
         (case invoke (Call_Delete (arrays (fst s) a ! i)) (Delete H (arrays (fst s) a ! i)) (\<lambda>u w. Done) s of
            (Inl f, s') \<Rightarrow> Some (Inl f, s')
          | (Inr u, s') \<Rightarrow> loop H a (i + 1) s')
         else Some (Inr (), s)) = Some y"
    show "?P H a i s y"
    proof (intro impI)
      assume rec: "replay H (snd s) w = Some (fst s)"
      show "replay H (snd (snd y)) w = Some (fst (snd y))"
      proof (cases "i < length (arrays (fst s) a)")
        case False
        with eq rec show ?thesis by auto
      next
        case True
        let ?c = "arrays (fst s) a ! i"
        obtain r1 s1 where inv: "invoke (Call_Delete ?c) (Delete H ?c) (\<lambda>u w. Done) s = (r1, s1)"
          by (cases "invoke (Call_Delete ?c) (Delete H ?c) (\<lambda>u w. Done) s") auto
        from invoke_truthful[OF rec inv] have rec1: "replay H (snd s1) w = Some (fst s1)" by simp
        show ?thesis
        proof (cases r1)
          case (Inl f)
          with True eq inv have "y = (Inl f, s1)" by simp
          with rec1 show ?thesis by simp
        next
          case (Inr u)
          with True eq inv have "loop H a (i + 1) s1 = Some y" by simp
          from IH[OF this] rec1 show ?thesis by simp
        qed
      qed
    qed
  qed
  with rec show ?thesis by simp
qed

lemma finish_truthful:
  assumes fin: "finish H ext s = Some (r, s')" and rec: "replay H (snd s) w = Some (fst s)"
  shows "replay H (snd s') w = Some (fst s')"
proof -
  obtain r5 s5 where sv: "invoke (saving ext) (builder_SaveFile H ext (''output.'' @ ext)) (\<lambda>u w. Done) s = (r5, s5)"
    by (cases "invoke (saving ext) (builder_SaveFile H ext (''output.'' @ ext)) (\<lambda>u w. Done) s") auto
  from invoke_truthful[OF rec sv] have rec5: "replay H (snd s5) w = Some (fst s5)" by simp
  show ?thesis
  proof (cases r5)
    case (Inl f)
    with fin sv have "s' = s5" by (simp add: finish_def)
    with rec5 show ?thesis by simp
  next
    case (Inr u)
    obtain r6 s6 where cl: "invoke Call_CloseFile (builder_CloseFile H) (\<lambda>u w. Done) s5 = (r6, s6)"
      by (cases "invoke Call_CloseFile (builder_CloseFile H) (\<lambda>u w. Done) s5") auto
    from invoke_truthful[OF rec5 cl] have rec6: "replay H (snd s6) w = Some (fst s6)" by simp
    from Inr fin sv cl have "s' = s6" by (simp add: finish_def)
    with rec6 show ?thesis by simp
  qed
qed

text \<open>
  Every call in the log of a run was performed, in that order, as the operation of the
  editor it names, on the world the call before it left, with the answer the log holds;
  and the run ends in the world the last call left.
\<close>

lemma convert_truthful:
  fixes H :: "('h, 'd, 'c, 'e) host"
  assumes run: "convert H fileUrl ext w = Some (r, w', tr)"
  shows "replay H tr w = Some w'"
proof -
  let ?s0 = "(w, []) :: ('h, 'd, 'c, 'e) js_state"
  have rec0: "replay H (snd ?s0) w = Some (fst ?s0)" by simp
  obtain r1 s1 where op: "invoke (Call_OpenFile fileUrl) (builder_OpenFile H fileUrl) (\<lambda>u w. Done) ?s0 = (r1, s1)"
    by (cases "invoke (Call_OpenFile fileUrl) (builder_OpenFile H fileUrl) (\<lambda>u w. Done) ?s0") auto
  from invoke_truthful[OF rec0 op] have rec1: "replay H (snd s1) w = Some (fst s1)" by simp
  from run op have "and_then (Some (r1, s1)) (\<lambda>u s1.
     and_then (Some (select_accessor H ext s1)) (\<lambda>oDocument s2.
     case oDocument of
       None \<Rightarrow> Some (Inl TypeError, s2)
     | Some d \<Rightarrow>
     and_then (Some (invoke (Call_GetAllComments d) (GetAllComments H d) (\<lambda>a w. Array a (arrays w a)) s2)) (\<lambda>aComments s3.
     and_then (delete_loop H aComments 0 s3) (\<lambda>u s4. finish H ext s4)))) = Some (r, w', tr)"
    by (simp add: convert_unfold)
  then show ?thesis
  proof (cases rule: and_then_eq_Some)
    case (failed f s)
    with rec1 show ?thesis by auto
  next
    case opened: (continued u s)
    then have [simp]: "s = s1" by simp
    obtain r2 s2 where sel: "select_accessor H ext s1 = (r2, s2)"
      by (cases "select_accessor H ext s1") auto
    from select_accessor_truthful[OF rec1 sel] have rec2: "replay H (snd s2) w = Some (fst s2)" .
    from opened(2) sel have "and_then (Some (r2, s2)) (\<lambda>oDocument s2.
       case oDocument of
         None \<Rightarrow> Some (Inl TypeError, s2)
       | Some d \<Rightarrow>
       and_then (Some (invoke (Call_GetAllComments d) (GetAllComments H d) (\<lambda>a w. Array a (arrays w a)) s2)) (\<lambda>aComments s3.
       and_then (delete_loop H aComments 0 s3) (\<lambda>u s4. finish H ext s4))) = Some (r, w', tr)"
      by simp
    then show ?thesis
    proof (cases rule: and_then_eq_Some)
      case (failed f s)
      with rec2 show ?thesis by auto
    next
      case selected: (continued oDocument s)
      then have [simp]: "s = s2" by simp
      show ?thesis
      proof (cases oDocument)
        case None
        with selected(2) rec2 show ?thesis by auto
      next
        case (Some d)
        obtain r3 s3 where en: "invoke (Call_GetAllComments d) (GetAllComments H d) (\<lambda>a w. Array a (arrays w a)) s2 = (r3, s3)"
          by (cases "invoke (Call_GetAllComments d) (GetAllComments H d) (\<lambda>a w. Array a (arrays w a)) s2") auto
        from invoke_truthful[OF rec2 en] have rec3: "replay H (snd s3) w = Some (fst s3)" by simp
        from selected(2) Some en have "and_then (Some (r3, s3)) (\<lambda>aComments s3.
            and_then (delete_loop H aComments 0 s3) (\<lambda>u s4. finish H ext s4)) = Some (r, w', tr)"
          by simp
        then show ?thesis
        proof (cases rule: and_then_eq_Some)
          case (failed f s)
          with rec3 show ?thesis by auto
        next
          case enumerated: (continued a s)
          then have [simp]: "s = s3" by simp
          from enumerated(2) show ?thesis
          proof (cases rule: and_then_eq_Some)
            case (failed f s4)
            then have "delete_loop H a 0 s3 = Some (r, w', tr)" by simp
            from delete_loop_truthful[OF this rec3] show ?thesis by simp
          next
            case looped: (continued u4 s4)
            from looped(1) have "delete_loop H a 0 s3 = Some (Inr u4, s4)" by simp
            from delete_loop_truthful[OF this rec3]
            have rec4: "replay H (snd s4) w = Some (fst s4)" by simp
            from finish_truthful[OF looped(2) rec4] show ?thesis by simp
          qed
        qed
      qed
    qed
  qed
qed

subsection \<open>What a run does not depend on\<close>

lemma delete_loop_mono:
  fixes H H' :: "('h, 'd, 'c, 'e) host"
  assumes loop: "delete_loop H a i s = Some y" and same: "Delete H = Delete H'"
  shows "delete_loop H' a i s = Some y"
proof -
  let ?P = "\<lambda>(H :: ('h, 'd, 'c, 'e) host) (a :: addr) (i :: nat) (s :: ('h, 'd, 'c, 'e) js_state)
              (y :: ('h, 'd, 'c, 'e, unit) step).
      \<forall>H' :: ('h, 'd, 'c, 'e) host. Delete H = Delete H' \<longrightarrow> delete_loop H' a i s = Some y"
  have "?P H a i s y"
  proof (rule delete_loop.raw_induct[where P = ?P, OF _ loop])
    fix loop and H :: "('h, 'd, 'c, 'e) host" and a i s y
    assume IH: "\<And>H a i s y. loop H a i s = Some y \<Longrightarrow> ?P H a i s y"
      and eq: "(if i < length (arrays (fst s) a) then
         (case invoke (Call_Delete (arrays (fst s) a ! i)) (Delete H (arrays (fst s) a ! i)) (\<lambda>u w. Done) s of
            (Inl f, s') \<Rightarrow> Some (Inl f, s')
          | (Inr u, s') \<Rightarrow> loop H a (i + 1) s')
         else Some (Inr (), s)) = Some y"
    show "?P H a i s y"
    proof (intro allI impI)
      fix H' :: "('h, 'd, 'c, 'e) host"
      assume same: "Delete H = Delete H'"
      show "delete_loop H' a i s = Some y"
      proof (cases "i < length (arrays (fst s) a)")
        case False
        with eq show ?thesis by (subst delete_loop.simps) simp
      next
        case True
        let ?c = "arrays (fst s) a ! i"
        obtain r1 s1 where inv: "invoke (Call_Delete ?c) (Delete H ?c) (\<lambda>u w. Done) s = (r1, s1)"
          by (cases "invoke (Call_Delete ?c) (Delete H ?c) (\<lambda>u w. Done) s") auto
        from inv same have inv': "invoke (Call_Delete ?c) (Delete H' ?c) (\<lambda>u w. Done) s = (r1, s1)"
          by simp
        show ?thesis
        proof (cases r1)
          case (Inl f)
          with True eq inv have "y = (Inl f, s1)" by simp
          with True Inl inv' show ?thesis by (subst delete_loop.simps) simp
        next
          case (Inr u)
          with True eq inv have "loop H a (i + 1) s1 = Some y" by simp
          from IH[OF this] same have "delete_loop H' a (i + 1) s1 = Some y" by blast
          with True Inr inv' show ?thesis by (subst delete_loop.simps) simp
        qed
      qed
    qed
  qed
  with same show ?thesis by blast
qed

lemma delete_loop_cong:
  fixes H H' :: "('h, 'd, 'c, 'e) host"
  assumes "Delete H = Delete H'"
  shows "delete_loop H a i s = delete_loop H' a i s"
proof (cases "delete_loop H a i s")
  case (Some y)
  from delete_loop_mono[OF Some assms] Some show ?thesis by simp
next
  case None
  show ?thesis
  proof (cases "delete_loop H' a i s")
    case inner: None
    with None show ?thesis by simp
  next
    case (Some y)
    from delete_loop_mono[OF Some assms[symmetric]] None show ?thesis by simp
  qed
qed

lemma convert_without_sheet:
  fixes H :: "('h, 'd, 'c, 'e) host"
  assumes "ext = ''doc'' \<or> ext = ''docx''"
  shows "convert (H\<lparr>Api_GetActiveSheet := X\<rparr>) fileUrl ext w = convert H fileUrl ext w"
proof -
  have "delete_loop (H\<lparr>Api_GetActiveSheet := X\<rparr>) a i s = delete_loop H a i s" for a i s
    by (rule delete_loop_cong) simp
  with assms show ?thesis
    by (simp add: convert_def select_accessor_def cong: option.case_cong sum.case_cong prod.case_cong if_cong)
qed

lemma convert_without_document:
  fixes H :: "('h, 'd, 'c, 'e) host"
  assumes "\<not> (ext = ''doc'' \<or> ext = ''docx'')"
  shows "convert (H\<lparr>Api_GetDocument := X\<rparr>) fileUrl ext w = convert H fileUrl ext w"
proof -
  have "delete_loop (H\<lparr>Api_GetDocument := X\<rparr>) a i s = delete_loop H a i s" for a i s
    by (rule delete_loop_cong) simp
  with assms show ?thesis
    by (simp add: convert_def select_accessor_def cong: option.case_cong sum.case_cong prod.case_cong if_cong)
qed

lemma convert_other_saves:
  fixes H :: "('h, 'd, 'c, 'e) host"
  shows "convert (H\<lparr>builder_SaveFile := (\<lambda>fmt name.
            if fmt = ext \<and> name = ''output.'' @ ext then builder_SaveFile H fmt name else X fmt name)\<rparr>)
          fileUrl ext w = convert H fileUrl ext w"
proof -
  have "delete_loop (H\<lparr>builder_SaveFile := (\<lambda>fmt name.
            if fmt = ext \<and> name = ''output.'' @ ext then builder_SaveFile H fmt name else X fmt name)\<rparr>) a i s =
        delete_loop H a i s" for a i s
    by (rule delete_loop_cong) simp
  then show ?thesis
    by (simp add: convert_def select_accessor_def cong: option.case_cong sum.case_cong prod.case_cong if_cong)
qed

subsection \<open>Where a run stops\<close>

lemma run_outcome:
  assumes "convert H fileUrl ext w = Some (r, w', tr)"
  shows "tr \<noteq> []"
    and "r = Inr () \<longleftrightarrow> last tr = (Call_CloseFile, Done)"
    and "r = Inl (HostFailure e) \<longleftrightarrow> snd (last tr) = Threw e"
    and "\<forall>x \<in> set (butlast tr). \<not> is_throw (snd x)"
  using assms
  by (cases rule: convert_cases; auto simp: butlast_append accessor_call_def)+

lemma run_stop:
  fixes H :: "('h, 'd, 'c, 'e) host"
  assumes run: "convert H fileUrl ext w = Some (r, w', tr)" and st: "snapshot_stable H"
  shows "\<not> is_throw (snd (last tr)) \<Longrightarrow>
           (ext \<notin> supported \<and> length tr = 1) \<or>
           (\<exists>a cs0. Array a cs0 \<in> snd ` set tr \<and> length tr = length cs0 + 5)"
    and "ext \<notin> supported \<Longrightarrow> length tr \<le> 1"
    and "Array a cs0 \<in> snd ` set tr \<Longrightarrow> length tr \<le> length cs0 + 5"
proof -
  show "\<not> is_throw (snd (last tr)) \<Longrightarrow>
           (ext \<notin> supported \<and> length tr = 1) \<or>
           (\<exists>a cs0. Array a cs0 \<in> snd ` set tr \<and> length tr = length cs0 + 5)"
    using run
  proof (cases rule: convert_cases)
    case (completed d a cs0 cs)
    assume "\<not> is_throw (snd (last tr))"
    from completed(5)[OF st] completed(4) show ?thesis by (intro disjI2 exI[of _ a] exI[of _ cs0]) simp
  qed auto
  show "ext \<notin> supported \<Longrightarrow> length tr \<le> 1"
    using run by (cases rule: convert_cases) auto
  show "Array a cs0 \<in> snd ` set tr \<Longrightarrow> length tr \<le> length cs0 + 5"
    using run
  proof (cases rule: convert_cases)
    case (delete_failed d a' cs0' cs c e)
    assume "Array a cs0 \<in> snd ` set tr"
    with delete_failed(4) have "cs0 = cs0'" by auto
    with delete_failed(5)[OF st] delete_failed(4) show ?thesis by simp
  next
    case (save_failed d a' cs0' cs e)
    assume "Array a cs0 \<in> snd ` set tr"
    with save_failed(4) have "cs0 = cs0'" by auto
    with save_failed(5)[OF st] save_failed(4) show ?thesis by simp
  next
    case (close_failed d a' cs0' cs e)
    assume "Array a cs0 \<in> snd ` set tr"
    with close_failed(4) have "cs0 = cs0'" by auto
    with close_failed(5)[OF st] close_failed(4) show ?thesis by simp
  next
    case (completed d a' cs0' cs)
    assume "Array a cs0 \<in> snd ` set tr"
    with completed(4) have "cs0 = cs0'" by auto
    with completed(5)[OF st] completed(4) show ?thesis by simp
  qed auto
qed

text \<open>
  With snapshots, a run whose answers are the first answers of another run, on the same
  two strings, is as long as the other.
\<close>

lemma run_same_length:
  fixes H1 :: "('h1, 'd, 'c, 'e) host" and H2 :: "('h2, 'd, 'c, 'e) host"
  assumes run1: "convert H1 fileUrl ext w1 = Some (r1, w1', tr1)"
    and run2: "convert H2 fileUrl ext w2 = Some (r2, w2', tr2)"
    and st: "snapshot_stable H1" "snapshot_stable H2"
    and pre: "prefix (map snd tr1) (map snd tr2)"
  shows "map snd tr1 = map snd tr2"
proof -
  from pre obtain zs where zs: "map snd tr2 = map snd tr1 @ zs" by (auto simp: prefix_def)
  then obtain ta tb where split: "tr2 = ta @ tb" "map snd ta = map snd tr1" "map snd tb = zs"
    by (auto simp: map_eq_append_conv)
  from run_outcome(1)[OF run1] have ne1: "tr1 \<noteq> []" .
  with split(2) have nea: "ta \<noteq> []" by auto
  show ?thesis
  proof (cases "tb = []")
    case True
    with split show ?thesis by simp
  next
    case False
    with split(1) have "set ta \<subseteq> set (butlast tr2)" by (simp add: butlast_append)
    with nea have "last ta \<in> set (butlast tr2)" by auto
    with run_outcome(4)[OF run2] have "\<not> is_throw (snd (last ta))" by blast
    moreover from nea ne1 split(2) have "snd (last ta) = snd (last tr1)"
      by (metis last_map)
    ultimately have quiet: "\<not> is_throw (snd (last tr1))" by simp
    from split(2) have len: "length ta = length tr1" by (metis length_map)
    from split(1) False have longer: "length tr1 < length tr2"
      using len by (cases tb) auto
    from split have sub: "snd ` set tr1 \<subseteq> snd ` set tr2"
      by (metis Un_upper1 image_mono set_append set_map)
    from run_stop(1)[OF run1 st(1) quiet] show ?thesis
    proof (elim disjE conjE exE)
      assume "ext \<notin> supported" "length tr1 = 1"
      with run_stop(2)[OF run2 st(2)] longer show ?thesis by simp
    next
      fix a cs0
      assume "Array a cs0 \<in> snd ` set tr1" "length tr1 = length cs0 + 5"
      with sub run_stop(3)[OF run2 st(2), of a cs0] longer show ?thesis by auto
    qed
  qed
qed

lemma run_same_calls:
  fixes H1 :: "('h1, 'd, 'c, 'e) host" and H2 :: "('h2, 'd, 'c, 'e) host"
  assumes run1: "convert H1 fileUrl ext w1 = Some (r1, w1', tr1)"
    and run2: "convert H2 fileUrl ext w2 = Some (r2, w2', tr2)"
    and st: "snapshot_stable H1" "snapshot_stable H2"
    and same: "map snd tr1 = map snd tr2"
  shows "map fst tr1 = map fst tr2"
proof -
  from same have sets: "snd ` set tr1 = snd ` set tr2" by (metis set_map)
  from same have len: "length tr1 = length tr2" by (metis length_map)
  from run_answers[OF run1] obtain D CS where
    D: "\<And>d. Handle d \<in> snd ` set tr1 \<Longrightarrow> d = D" and CS: "\<And>a cs. Array a cs \<in> snd ` set tr1 \<Longrightarrow> cs = CS"
    by blast
  from run_calls[OF run1 st(1) D CS] run_calls[OF run2 st(2), of D CS] D CS sets len
  show ?thesis by simp
qed

subsection \<open>How a run ends\<close>

lemma replay_snocD:
  assumes "replay H (tr @ [(c, rsp)]) w = Some w'"
  obtains w1 where "replay H tr w = Some w1" "perform H c w1 = (rsp, w')"
  using assms by (auto simp: replay_append split: option.splits prod.splits if_splits)

text \<open>What the last calls of a run were handed, and what they left.\<close>

lemma run_ending:
  fixes H :: "('h, 'd, 'c, 'e) host"
  assumes run: "convert H fileUrl ext w = Some (r, w', tr)"
  shows "r = Inr () \<Longrightarrow>
           \<exists>w4 w5. builder_SaveFile H ext (''output.'' @ ext) w4 = (Inr (), w5) \<and>
                   builder_CloseFile H w5 = (Inr (), w')"
    and "last tr = (Call_SaveFile ext (''output.'' @ ext), Threw e) \<Longrightarrow>
           \<exists>w4. builder_SaveFile H ext (''output.'' @ ext) w4 = (Inl e, w')"
    and "last tr = (Call_CloseFile, Threw e) \<Longrightarrow>
           \<exists>w4 w5. builder_SaveFile H ext (''output.'' @ ext) w4 = (Inr (), w5) \<and>
                   builder_CloseFile H w5 = (Inl e, w')"
proof -
  note rec = convert_truthful[OF run]
  show "r = Inr () \<Longrightarrow>
           \<exists>w4 w5. builder_SaveFile H ext (''output.'' @ ext) w4 = (Inr (), w5) \<and>
                   builder_CloseFile H w5 = (Inr (), w')"
    using run
  proof (cases rule: convert_cases)
    case (completed d a cs0 cs)
    let ?pre = "prelude fileUrl ext d a cs0 @ deleted cs :: ('d, 'c, 'e) log"
    from completed(4) rec have "replay H ((?pre @ [(saving ext, Done)]) @ [(Call_CloseFile, Done)]) w = Some w'"
      by simp
    then obtain w5 where r5: "replay H (?pre @ [(saving ext, Done)]) w = Some w5"
      and cl: "perform H Call_CloseFile w5 = (Done, w')"
      by (rule replay_snocD)
    from r5 obtain w4 where "perform H (saving ext) w4 = (Done, w5)"
      by (rule replay_snocD)
    with cl show ?thesis by (auto split: prod.splits sum.splits)
  qed auto
  show "last tr = (Call_SaveFile ext (''output.'' @ ext), Threw e) \<Longrightarrow>
           \<exists>w4. builder_SaveFile H ext (''output.'' @ ext) w4 = (Inl e, w')"
    using run
  proof (cases rule: convert_cases)
    case (save_failed d a cs0 cs e')
    assume "last tr = (Call_SaveFile ext (''output.'' @ ext), Threw e)"
    with save_failed(4) have [simp]: "e' = e" by simp
    let ?pre = "prelude fileUrl ext d a cs0 @ deleted cs :: ('d, 'c, 'e) log"
    from save_failed(4) rec have "replay H (?pre @ [(saving ext, Threw e)]) w = Some w'"
      by simp
    then obtain w4 where "perform H (saving ext) w4 = (Threw e, w')"
      by (rule replay_snocD)
    then show ?thesis by (auto split: prod.splits sum.splits)
  qed (auto simp: accessor_call_def split: if_splits)
  show "last tr = (Call_CloseFile, Threw e) \<Longrightarrow>
           \<exists>w4 w5. builder_SaveFile H ext (''output.'' @ ext) w4 = (Inr (), w5) \<and>
                   builder_CloseFile H w5 = (Inl e, w')"
    using run
  proof (cases rule: convert_cases)
    case (close_failed d a cs0 cs e')
    assume "last tr = (Call_CloseFile, Threw e)"
    with close_failed(4) have [simp]: "e' = e" by simp
    let ?pre = "prelude fileUrl ext d a cs0 @ deleted cs :: ('d, 'c, 'e) log"
    from close_failed(4) rec have "replay H ((?pre @ [(saving ext, Done)]) @ [(Call_CloseFile, Threw e)]) w = Some w'"
      by simp
    then obtain w5 where r5: "replay H (?pre @ [(saving ext, Done)]) w = Some w5"
      and cl: "perform H Call_CloseFile w5 = (Threw e, w')"
      by (rule replay_snocD)
    from r5 obtain w4 where "perform H (saving ext) w4 = (Done, w5)"
      by (rule replay_snocD)
    with cl show ?thesis by (auto split: prod.splits sum.splits)
  qed (auto simp: accessor_call_def split: if_splits)
qed

lemma filter_enumeration_deleted [simp]:
  "filter (\<lambda>x. is_enumeration (fst x)) (deleted cs) = []"
  by (induction cs) simp_all

section \<open>The claims\<close>

text \<open>
  C1. On the editor of the specification: every run in which all operations succeed
  found a source document at \<open>fileUrl\<close>, was handed that document's comments as the
  snapshot, called \<open>Delete\<close> on each of them in order, and wrote one file, \<open>output.\<close> followed
  by \<open>ext\<close>, holding the source document with no comment and everything else as it was.
  Such runs exist for every number of comments: a supported \<open>ext\<close>, a file that resolves,
  comments that can be deleted and an output that can be written make the run complete.
\<close>

theorem convert_deletes_every_comment:
  fixes w :: editor_world
  shows "(ext \<in> {''doc'', ''docx'', ''xls'', ''xlsx''} \<and> files (host_state w) fileUrl = Some doc \<and>
          (\<forall>c \<in> set (comments doc). \<not> undeletable (host_state w) c) \<and>
          \<not> unwritable (host_state w) (''output.'' @ ext)
          \<longrightarrow> (\<exists>w' tr. convert editor_host fileUrl ext w = Some (Inr (), w', tr))) \<and>
         (\<forall>w' tr. convert editor_host fileUrl ext w = Some (Inr (), w', tr) \<longrightarrow>
            (\<exists>source. files (host_state w) fileUrl = Some source \<and>
               snapshots tr = [comments source] \<and>
               deletions tr = comments source \<and>
               files (host_state w') = (files (host_state w))(''output.'' @ ext \<mapsto> source\<lparr>comments := []\<rparr>)))"
  by (cases rule: editor_run_cases[of w fileUrl ext]) (auto simp: supported_def)

theorem convert_deletes_every_comment_witness:
  "convert editor_host ''report.docx'' ''docx'' report_world = Some (Inr (), report_done, report_log) \<and>
   files (host_state report_world) ''report.docx'' = Some \<lparr>body = ''Quarterly report'', comments = [1, 2, 3]\<rparr> \<and>
   snapshots report_log = [[1, 2, 3]] \<and>
   deletions report_log = [1, 2, 3] \<and>
   files (host_state report_done) ''output.docx'' = Some \<lparr>body = ''Quarterly report'', comments = []\<rparr>"
proof -
  from convert_deletes_every_comment[of "''docx''" report_world "''report.docx''" report_doc] report_run
  obtain source where src: "files (host_state report_world) ''report.docx'' = Some source"
    and log: "snapshots report_log = [comments source]" "deletions report_log = comments source"
    and out: "files (host_state report_done) =
      (files (host_state report_world))(''output.docx'' \<mapsto> source\<lparr>comments := []\<rparr>)"
    by auto
  from src have "source = \<lparr>body = ''Quarterly report'', comments = [1, 2, 3]\<rparr>"
    by (simp add: report_world_def start_world_def report_doc_def)
  with src log out report_run show ?thesis by simp
qed

text \<open>
  C2. For every \<open>ext\<close> other than \<open>doc\<close>, \<open>docx\<close>, \<open>xls\<close> and \<open>xlsx\<close> the \<open>switch\<close> calls no
  accessor and leaves \<open>oDocument\<close> undefined, and the run ends in a failure after the one
  call of \<open>OpenFile\<close>: with the failure of \<open>OpenFile\<close> if that threw, and otherwise with the
  \<open>TypeError\<close> of calling \<open>GetAllComments\<close> on \<open>undefined\<close>. No comment is enumerated and
  \<open>SaveFile\<close> is never called.
\<close>

theorem unsupported_ext_fails:
  fixes H :: "('h, 'd, 'c, 'e) host"
  assumes "ext \<notin> {''doc'', ''docx'', ''xls'', ''xlsx''}"
  shows "select_accessor H ext s = (Inr None, s) \<and>
         convert H fileUrl ext w =
           (case builder_OpenFile H fileUrl w of
              (Inl e, w1) \<Rightarrow> Some (Inl (HostFailure e), w1, [(Call_OpenFile fileUrl, Threw e)])
            | (Inr u, w1) \<Rightarrow> Some (Inl TypeError, w1, [(Call_OpenFile fileUrl, Done)])) \<and>
         (\<forall>r w' tr. convert H fileUrl ext w = Some (r, w', tr) \<longrightarrow>
            r \<noteq> Inr () \<and> filter is_accessor (map fst tr) = [] \<and> snapshots tr = [] \<and> saves tr = [])"
proof -
  from assms have sel: "select_accessor H ext s = (Inr None, s)"
    by (simp add: select_accessor_def)
  have eq: "convert H fileUrl ext w =
           (case builder_OpenFile H fileUrl w of
              (Inl e, w1) \<Rightarrow> Some (Inl (HostFailure e), w1, [(Call_OpenFile fileUrl, Threw e)])
            | (Inr u, w1) \<Rightarrow> Some (Inl TypeError, w1, [(Call_OpenFile fileUrl, Done)]))"
    using assms
    by (cases rule: convert_prefix_cases[of H fileUrl w ext]) (simp_all add: supported_def)
  have "r \<noteq> Inr () \<and> filter is_accessor (map fst tr) = [] \<and> snapshots tr = [] \<and> saves tr = []"
    if "convert H fileUrl ext w = Some (r, w', tr)" for r w' tr
    using that eq by (auto split: prod.splits sum.splits)
  with sel eq show ?thesis by blast
qed

theorem unsupported_ext_fails_witness:
  "''pdf'' \<notin> {''doc'', ''docx'', ''xls'', ''xlsx''} \<and>
   select_accessor editor_host ''pdf'' (report_opened, [(Call_OpenFile ''report.docx'', Done)]) =
     (Inr None, (report_opened, [(Call_OpenFile ''report.docx'', Done)])) \<and>
   convert editor_host ''report.docx'' ''pdf'' report_world =
     Some (Inl TypeError, report_opened, [(Call_OpenFile ''report.docx'', Done)])"
proof -
  have out: "''pdf'' \<notin> {''doc'', ''docx'', ''xls'', ''xlsx''}" by simp
  from unsupported_ext_fails[OF out, of editor_host "(report_opened, [(Call_OpenFile ''report.docx'', Done)])"
      "''report.docx''" report_world]
  show ?thesis
    by (simp add: editor_host_def editor_open_def report_world_def report_opened_def start_world_def)
qed

text \<open>
  C3. The dispatch is on the operations, not only on their names. If \<open>ext\<close> is \<open>doc\<close> or
  \<open>docx\<close>, the \<open>switch\<close> is the editor's \<open>Api.GetDocument\<close> run on the current world: its
  exception is the script's failure, its object becomes \<open>oDocument\<close>, its world is the world
  the script goes on in; and the run is the same whatever \<open>Api.GetActiveSheet\<close> would do,
  so that accessor is never called. If \<open>ext\<close> is \<open>xls\<close> or \<open>xlsx\<close>, the same holds with the two
  accessors exchanged. In the log of any run, which is a true record of the operations
  performed, the accessor calls are then that one call, once \<open>OpenFile\<close> has returned; for
  any other \<open>ext\<close>, or if \<open>OpenFile\<close> threw, there is none.
\<close>

theorem accessor_dispatch:
  fixes H :: "('h, 'd, 'c, 'e) host"
  shows "(ext = ''doc'' \<or> ext = ''docx'' \<longrightarrow>
            select_accessor H ext s =
              (case Api_GetDocument H (fst s) of
                 (Inl e, w2) \<Rightarrow> (Inl (HostFailure e), w2, snd s @ [(Call_GetDocument, Threw e)])
               | (Inr d, w2) \<Rightarrow> (Inr (Some d), w2, snd s @ [(Call_GetDocument, Handle d)])) \<and>
            (\<forall>X. convert (H\<lparr>Api_GetActiveSheet := X\<rparr>) fileUrl ext w = convert H fileUrl ext w)) \<and>
         (ext = ''xls'' \<or> ext = ''xlsx'' \<longrightarrow>
            select_accessor H ext s =
              (case Api_GetActiveSheet H (fst s) of
                 (Inl e, w2) \<Rightarrow> (Inl (HostFailure e), w2, snd s @ [(Call_GetActiveSheet, Threw e)])
               | (Inr d, w2) \<Rightarrow> (Inr (Some d), w2, snd s @ [(Call_GetActiveSheet, Handle d)])) \<and>
            (\<forall>X. convert (H\<lparr>Api_GetDocument := X\<rparr>) fileUrl ext w = convert H fileUrl ext w)) \<and>
         (\<forall>u w1 e w2. builder_OpenFile H fileUrl w = (Inr u, w1) \<longrightarrow>
            (ext = ''doc'' \<or> ext = ''docx'' \<longrightarrow> Api_GetDocument H w1 = (Inl e, w2) \<longrightarrow>
               convert H fileUrl ext w =
                 Some (Inl (HostFailure e), w2, [(Call_OpenFile fileUrl, Done), (Call_GetDocument, Threw e)])) \<and>
            (ext = ''xls'' \<or> ext = ''xlsx'' \<longrightarrow> Api_GetActiveSheet H w1 = (Inl e, w2) \<longrightarrow>
               convert H fileUrl ext w =
                 Some (Inl (HostFailure e), w2, [(Call_OpenFile fileUrl, Done), (Call_GetActiveSheet, Threw e)]))) \<and>
         (\<forall>r w' tr. convert H fileUrl ext w = Some (r, w', tr) \<longrightarrow>
            replay H tr w = Some w' \<and>
            (isl (fst (builder_OpenFile H fileUrl w)) \<longrightarrow> filter is_accessor (map fst tr) = []) \<and>
            (\<not> isl (fst (builder_OpenFile H fileUrl w)) \<longrightarrow>
               (ext = ''doc'' \<or> ext = ''docx'' \<longrightarrow> filter is_accessor (map fst tr) = [Call_GetDocument]) \<and>
               (ext = ''xls'' \<or> ext = ''xlsx'' \<longrightarrow> filter is_accessor (map fst tr) = [Call_GetActiveSheet]) \<and>
               (ext \<notin> {''doc'', ''docx'', ''xls'', ''xlsx''} \<longrightarrow> filter is_accessor (map fst tr) = [])))"
proof -
  have word: "select_accessor H ext s =
              (case Api_GetDocument H (fst s) of
                 (Inl e, w2) \<Rightarrow> (Inl (HostFailure e), w2, snd s @ [(Call_GetDocument, Threw e)])
               | (Inr d, w2) \<Rightarrow> (Inr (Some d), w2, snd s @ [(Call_GetDocument, Handle d)])) \<and>
            (\<forall>X. convert (H\<lparr>Api_GetActiveSheet := X\<rparr>) fileUrl ext w = convert H fileUrl ext w)"
    if "ext = ''doc'' \<or> ext = ''docx''"
    using that convert_without_sheet[OF that, where H = H and fileUrl = fileUrl and w = w]
    by (auto simp: select_accessor_def invoke_def split: prod.splits sum.splits)
  have sheet: "select_accessor H ext s =
              (case Api_GetActiveSheet H (fst s) of
                 (Inl e, w2) \<Rightarrow> (Inl (HostFailure e), w2, snd s @ [(Call_GetActiveSheet, Threw e)])
               | (Inr d, w2) \<Rightarrow> (Inr (Some d), w2, snd s @ [(Call_GetActiveSheet, Handle d)])) \<and>
            (\<forall>X. convert (H\<lparr>Api_GetDocument := X\<rparr>) fileUrl ext w = convert H fileUrl ext w)"
    if "ext = ''xls'' \<or> ext = ''xlsx''"
  proof -
    from that have no: "\<not> (ext = ''doc'' \<or> ext = ''docx'')" by auto
    with that convert_without_document[OF no, where H = H and fileUrl = fileUrl and w = w] show ?thesis
      by (auto simp: select_accessor_def invoke_def split: prod.splits sum.splits)
  qed
  have thrown: "(ext = ''doc'' \<or> ext = ''docx'' \<longrightarrow> Api_GetDocument H w1 = (Inl e, w2) \<longrightarrow>
               convert H fileUrl ext w =
                 Some (Inl (HostFailure e), w2, [(Call_OpenFile fileUrl, Done), (Call_GetDocument, Threw e)])) \<and>
            (ext = ''xls'' \<or> ext = ''xlsx'' \<longrightarrow> Api_GetActiveSheet H w1 = (Inl e, w2) \<longrightarrow>
               convert H fileUrl ext w =
                 Some (Inl (HostFailure e), w2, [(Call_OpenFile fileUrl, Done), (Call_GetActiveSheet, Threw e)]))"
    if "builder_OpenFile H fileUrl w = (Inr u, w1)" for u w1 e w2
    using that by (auto simp: convert_unfold invoke_def select_accessor_def)
  have logged: "replay H tr w = Some w' \<and>
            (isl (fst (builder_OpenFile H fileUrl w)) \<longrightarrow> filter is_accessor (map fst tr) = []) \<and>
            (\<not> isl (fst (builder_OpenFile H fileUrl w)) \<longrightarrow>
               (ext = ''doc'' \<or> ext = ''docx'' \<longrightarrow> filter is_accessor (map fst tr) = [Call_GetDocument]) \<and>
               (ext = ''xls'' \<or> ext = ''xlsx'' \<longrightarrow> filter is_accessor (map fst tr) = [Call_GetActiveSheet]) \<and>
               (ext \<notin> {''doc'', ''docx'', ''xls'', ''xlsx''} \<longrightarrow> filter is_accessor (map fst tr) = []))"
    if run: "convert H fileUrl ext w = Some (r, w', tr)" for r w' tr
  proof -
    have "(isl (fst (builder_OpenFile H fileUrl w)) \<longrightarrow> filter is_accessor (map fst tr) = []) \<and>
            (\<not> isl (fst (builder_OpenFile H fileUrl w)) \<longrightarrow>
               (ext = ''doc'' \<or> ext = ''docx'' \<longrightarrow> filter is_accessor (map fst tr) = [Call_GetDocument]) \<and>
               (ext = ''xls'' \<or> ext = ''xlsx'' \<longrightarrow> filter is_accessor (map fst tr) = [Call_GetActiveSheet]) \<and>
               (ext \<notin> {''doc'', ''docx'', ''xls'', ''xlsx''} \<longrightarrow> filter is_accessor (map fst tr) = []))"
      using run by (cases rule: convert_cases) (simp_all add: supported_def accessor_call_def)
    with convert_truthful[OF run] show ?thesis by (rule conjI)
  qed
  from word sheet thrown logged show ?thesis by blast
qed

theorem accessor_dispatch_witness:
  "convert (editor_host\<lparr>Api_GetActiveSheet := (\<lambda>w. (Inl NoOpenDocument, w))\<rparr>)
     ''report.docx'' ''docx'' report_world = Some (Inr (), report_done, report_log) \<and>
   convert editor_host ''report.docx'' ''docx'' report_world = Some (Inr (), report_done, report_log) \<and>
   replay editor_host report_log report_world = Some report_done \<and>
   filter is_accessor (map fst report_log) = [Call_GetDocument] \<and>
   convert (editor_host\<lparr>Api_GetDocument := (\<lambda>w. (Inl NoOpenDocument, w))\<rparr>)
     ''budget.xlsx'' ''xlsx'' budget_world = Some (Inr (), budget_done, budget_log) \<and>
   convert editor_host ''budget.xlsx'' ''xlsx'' budget_world = Some (Inr (), budget_done, budget_log) \<and>
   replay editor_host budget_log budget_world = Some budget_done \<and>
   filter is_accessor (map fst budget_log) = [Call_GetActiveSheet]"
proof -
  note word = accessor_dispatch[where H = editor_host and ext = "''docx''" and fileUrl = "''report.docx''"
      and w = report_world]
  note sheet = accessor_dispatch[where H = editor_host and ext = "''xlsx''" and fileUrl = "''budget.xlsx''"
      and w = budget_world]
  have opened: "\<not> isl (fst (builder_OpenFile editor_host ''report.docx'' report_world))"
    "\<not> isl (fst (builder_OpenFile editor_host ''budget.xlsx'' budget_world))"
    by (simp_all add: editor_open_def report_world_def budget_world_def start_world_def)
  from word have "\<forall>X. convert (editor_host\<lparr>Api_GetActiveSheet := X\<rparr>) ''report.docx'' ''docx'' report_world =
      convert editor_host ''report.docx'' ''docx'' report_world"
    by simp
  then have a: "convert (editor_host\<lparr>Api_GetActiveSheet := (\<lambda>w. (Inl NoOpenDocument, w))\<rparr>)
     ''report.docx'' ''docx'' report_world = Some (Inr (), report_done, report_log)"
    using report_run by simp
  from sheet have "\<forall>X. convert (editor_host\<lparr>Api_GetDocument := X\<rparr>) ''budget.xlsx'' ''xlsx'' budget_world =
      convert editor_host ''budget.xlsx'' ''xlsx'' budget_world"
    by simp
  then have b: "convert (editor_host\<lparr>Api_GetDocument := (\<lambda>w. (Inl NoOpenDocument, w))\<rparr>)
     ''budget.xlsx'' ''xlsx'' budget_world = Some (Inr (), budget_done, budget_log)"
    using budget_run by simp
  from word report_run opened(1) have c: "replay editor_host report_log report_world = Some report_done"
    "filter is_accessor (map fst report_log) = [Call_GetDocument]"
    by simp_all
  from sheet budget_run opened(2) have d: "replay editor_host budget_log budget_world = Some budget_done"
    "filter is_accessor (map fst budget_log) = [Call_GetActiveSheet]"
    by simp_all
  from a b c d report_run budget_run show ?thesis by (intro conjI)
qed




text \<open>
  C5. The script hands \<open>SaveFile\<close> the format \<open>ext\<close> and the file name \<open>output.\<close> followed by
  \<open>ext\<close>, and nothing else: a run is the same whatever \<open>SaveFile\<close> would do with any other
  format or name, and \<open>fileUrl\<close> has no part in either argument. A run calls \<open>SaveFile\<close> at
  most once; a run that completes has called it with these two arguments, in a world
  from which it returned, and ends in the world \<open>CloseFile\<close> made of the one it left; a run
  whose last call is a \<open>SaveFile\<close> that threw ends in the world that call left. The log is
  a true record: each call in it is the operation performed.
\<close>

theorem output_name_fixed:
  fixes H :: "('h, 'd, 'c, 'e) host"
  shows "(\<forall>X. convert (H\<lparr>builder_SaveFile := (\<lambda>fmt name.
                 if fmt = ext \<and> name = ''output.'' @ ext then builder_SaveFile H fmt name else X fmt name)\<rparr>)
               fileUrl ext w = convert H fileUrl ext w) \<and>
         (\<forall>r w' tr. convert H fileUrl ext w = Some (r, w', tr) \<longrightarrow>
            replay H tr w = Some w' \<and>
            (saves tr = [] \<or> saves tr = [(ext, ''output.'' @ ext)]) \<and>
            (r = Inr () \<longrightarrow>
               saves tr = [(ext, ''output.'' @ ext)] \<and>
               (\<exists>w4 w5. builder_SaveFile H ext (''output.'' @ ext) w4 = (Inr (), w5) \<and>
                        builder_CloseFile H w5 = (Inr (), w'))) \<and>
            (\<forall>e. last tr = (Call_SaveFile ext (''output.'' @ ext), Threw e) \<longrightarrow>
               (\<exists>w4. builder_SaveFile H ext (''output.'' @ ext) w4 = (Inl e, w'))))"
proof -
  have labels: "(saves tr = [] \<or> saves tr = [(ext, ''output.'' @ ext)]) \<and>
      (r = Inr () \<longrightarrow> saves tr = [(ext, ''output.'' @ ext)])"
    if "convert H fileUrl ext w = Some (r, w', tr)" for r w' tr
    using that by (cases rule: convert_cases) simp_all
  have "replay H tr w = Some w' \<and>
            (saves tr = [] \<or> saves tr = [(ext, ''output.'' @ ext)]) \<and>
            (r = Inr () \<longrightarrow>
               saves tr = [(ext, ''output.'' @ ext)] \<and>
               (\<exists>w4 w5. builder_SaveFile H ext (''output.'' @ ext) w4 = (Inr (), w5) \<and>
                        builder_CloseFile H w5 = (Inr (), w'))) \<and>
            (\<forall>e. last tr = (Call_SaveFile ext (''output.'' @ ext), Threw e) \<longrightarrow>
               (\<exists>w4. builder_SaveFile H ext (''output.'' @ ext) w4 = (Inl e, w')))"
    if run: "convert H fileUrl ext w = Some (r, w', tr)" for r w' tr
    using convert_truthful[OF run] labels[OF run] run_ending(1,2)[OF run] by blast
  with convert_other_saves[where H = H and ext = ext and fileUrl = fileUrl and w = w] show ?thesis by blast
qed

theorem output_name_fixed_witness:
  "convert (editor_host\<lparr>builder_SaveFile := (\<lambda>fmt name.
       if fmt = ''docx'' \<and> name = ''output.docx'' then builder_SaveFile editor_host fmt name
       else (\<lambda>w. (Inl SaveFailure, w)))\<rparr>) ''report.docx'' ''docx'' report_world =
     Some (Inr (), report_done, report_log) \<and>
   convert editor_host ''report.docx'' ''docx'' report_world = Some (Inr (), report_done, report_log) \<and>
   replay editor_host report_log report_world = Some report_done \<and>
   saves report_log = [(''docx'', ''output.docx'')]"
proof -
  note inst = output_name_fixed[where H = editor_host and ext = "''docx''" and fileUrl = "''report.docx''"
      and w = report_world]
  from inst[THEN conjunct1, THEN spec, of "\<lambda>fmt name w. (Inl SaveFailure, w)"]
  have "convert (editor_host\<lparr>builder_SaveFile := (\<lambda>fmt name.
       if fmt = ''docx'' \<and> name = ''output.'' @ ''docx'' then builder_SaveFile editor_host fmt name
       else (\<lambda>w. (Inl SaveFailure, w)))\<rparr>) ''report.docx'' ''docx'' report_world =
     convert editor_host ''report.docx'' ''docx'' report_world" .
  then have other: "convert (editor_host\<lparr>builder_SaveFile := (\<lambda>fmt name.
       if fmt = ''docx'' \<and> name = ''output.docx'' then builder_SaveFile editor_host fmt name
       else (\<lambda>w. (Inl SaveFailure, w)))\<rparr>) ''report.docx'' ''docx'' report_world =
     Some (Inr (), report_done, report_log)"
    by (simp add: report_run)
  from inst report_run have "replay editor_host report_log report_world = Some report_done"
    "saves report_log = [(''docx'', ''output.docx'')]"
    by auto
  with other report_run show ?thesis by (intro conjI)
qed

text \<open>
  C6. The script handles no failure. In every run, the script ends with the failure of
  an operation exactly when the last call it issued threw, and with the very value that
  was thrown; every call before the last returned, so nothing is retried, nothing is
  undone and nothing is called after a throw. On the editor of the specification, a run
  that fails leaves every file as it was; in particular, when it is \<open>SaveFile\<close> that fails,
  the comments of the source have all been deleted in the session's copy, the source
  file is unchanged and no output file has been written.
\<close>

theorem failures_propagate_no_rollback:
  fixes H :: "('h, 'd, 'c, 'e) host" and we :: editor_world
  shows "(\<forall>r w' tr. convert H fileUrl ext w = Some (r, w', tr) \<longrightarrow>
            (\<forall>e. r = Inl (HostFailure e) \<longleftrightarrow> tr \<noteq> [] \<and> snd (last tr) = Threw e) \<and>
            (\<forall>x \<in> set (butlast tr). \<not> is_throw (snd x))) \<and>
         (\<forall>r we' tr. convert editor_host fileUrl ext we = Some (r, we', tr) \<and> r \<noteq> Inr () \<longrightarrow>
            files (host_state we') = files (host_state we) \<and>
            (fst (last tr) = Call_SaveFile ext (''output.'' @ ext) \<longrightarrow>
               r = Inl (HostFailure SaveFailure) \<and>
               (\<exists>source. files (host_state we) fileUrl = Some source \<and>
                  deletions tr = comments source \<and>
                  session (host_state we') = Some (source\<lparr>comments := []\<rparr>))))"
proof -
  have generic: "(\<forall>e. r = Inl (HostFailure e) \<longleftrightarrow> tr \<noteq> [] \<and> snd (last tr) = Threw e) \<and>
            (\<forall>x \<in> set (butlast tr). \<not> is_throw (snd x))"
    if "convert H fileUrl ext w = Some (r, w', tr)" for r w' tr
    using that
  proof (cases rule: convert_cases)
    case (delete_failed d a cs0 cs c e)
    then show ?thesis by (auto simp: butlast_append)
  next
    case (save_failed d a cs0 cs e)
    then show ?thesis by (auto simp: butlast_append)
  next
    case (close_failed d a cs0 cs e)
    then show ?thesis by (auto simp: butlast_append)
  next
    case (completed d a cs0 cs)
    then show ?thesis by (auto simp: butlast_append)
  qed auto
  have editor: "files (host_state we') = files (host_state we) \<and>
            (fst (last tr) = Call_SaveFile ext (''output.'' @ ext) \<longrightarrow>
               r = Inl (HostFailure SaveFailure) \<and>
               (\<exists>source. files (host_state we) fileUrl = Some source \<and>
                  deletions tr = comments source \<and>
                  session (host_state we') = Some (source\<lparr>comments := []\<rparr>)))"
    if "convert editor_host fileUrl ext we = Some (r, we', tr) \<and> r \<noteq> Inr ()" for r we' tr
    using that by (cases rule: editor_run_cases[of we fileUrl ext]) auto
  show ?thesis
  proof (rule conjI)
    show "\<forall>r w' tr. convert H fileUrl ext w = Some (r, w', tr) \<longrightarrow>
            (\<forall>e. r = Inl (HostFailure e) \<longleftrightarrow> tr \<noteq> [] \<and> snd (last tr) = Threw e) \<and>
            (\<forall>x \<in> set (butlast tr). \<not> is_throw (snd x))"
      using generic by (intro allI impI)
  next
    show "\<forall>r we' tr. convert editor_host fileUrl ext we = Some (r, we', tr) \<and> r \<noteq> Inr () \<longrightarrow>
            files (host_state we') = files (host_state we) \<and>
            (fst (last tr) = Call_SaveFile ext (''output.'' @ ext) \<longrightarrow>
               r = Inl (HostFailure SaveFailure) \<and>
               (\<exists>source. files (host_state we) fileUrl = Some source \<and>
                  deletions tr = comments source \<and>
                  session (host_state we') = Some (source\<lparr>comments := []\<rparr>)))"
      using editor by (intro allI impI)
  qed
qed

theorem failures_propagate_no_rollback_witness:
  "convert editor_host ''report.docx'' ''docx'' readonly_world =
     Some (Inl (HostFailure SaveFailure), readonly_end, readonly_log) \<and>
   last readonly_log = (Call_SaveFile ''docx'' ''output.docx'', Threw SaveFailure) \<and>
   deletions readonly_log = [1, 2, 3] \<and>
   files (host_state readonly_end) = files (host_state readonly_world) \<and>
   files (host_state readonly_end) ''output.docx'' = None \<and>
   session (host_state readonly_end) = Some \<lparr>body = ''Quarterly report'', comments = []\<rparr>"
proof -
  have log: "last readonly_log = (Call_SaveFile ''docx'' ''output.docx'', Threw SaveFailure)"
    by (simp add: readonly_log_def)
  from failures_propagate_no_rollback[of editor_host "''report.docx''" "''docx''" readonly_world readonly_world]
    readonly_run log
  have "files (host_state readonly_end) = files (host_state readonly_world)"
    and "\<exists>source. files (host_state readonly_world) ''report.docx'' = Some source \<and>
           deletions readonly_log = comments source \<and>
           session (host_state readonly_end) = Some (source\<lparr>comments := []\<rparr>)"
    by auto
  with readonly_run log show ?thesis
    by (auto simp: readonly_world_def start_world_def report_doc_def)
qed

text \<open>
  C7. A run that completes has issued, in this order and with every call answered before
  the next: \<open>OpenFile\<close>, one accessor, \<open>GetAllComments\<close>, some calls of \<open>Delete\<close>, \<open>SaveFile\<close>,
  \<open>CloseFile\<close>; with a snapshot, the calls of \<open>Delete\<close> are as many as the snapshot has
  entries. A run that fails has issued the first calls of such a sequence and stopped at
  the first one that threw, or, with no accessor selected, at the \<open>TypeError\<close> after
  \<open>OpenFile\<close>. The steps are performed, not only named: the log is a true record, each call
  in it being the editor's operation of that name run on the world the call before it
  left, and the run ends in the world the last call left. With a snapshot, every run is
  one or the other: the script returns.
\<close>

theorem linear_sequence:
  fixes H :: "('h, 'd, 'c, 'e) host"
  shows "(snapshot_stable H \<longrightarrow> convert H fileUrl ext w \<noteq> None) \<and>
    (\<forall>r w' tr. convert H fileUrl ext w = Some (r, w', tr) \<longrightarrow>
       replay H tr w = Some w' \<and>
       (\<exists>acc d cs. acc \<in> {Call_GetDocument, Call_GetActiveSheet} \<and>
          (r = Inr () \<longrightarrow>
             map fst tr = [Call_OpenFile fileUrl, acc, Call_GetAllComments d] @ map Call_Delete cs @
                          [Call_SaveFile ext (''output.'' @ ext), Call_CloseFile] \<and>
             (\<forall>x \<in> set tr. \<not> is_throw (snd x)) \<and>
             (snapshot_stable H \<longrightarrow> snapshots tr = [cs])) \<and>
          (r \<noteq> Inr () \<longrightarrow>
             tr \<noteq> [] \<and>
             prefix (map fst tr) ([Call_OpenFile fileUrl, acc, Call_GetAllComments d] @ map Call_Delete cs @
                          [Call_SaveFile ext (''output.'' @ ext), Call_CloseFile]) \<and>
             (\<forall>x \<in> set (butlast tr). \<not> is_throw (snd x)) \<and>
             ((r = Inl TypeError \<and> tr = [(Call_OpenFile fileUrl, Done)]) \<or>
              (\<exists>e. r = Inl (HostFailure e) \<and> snd (last tr) = Threw e)))))"
proof -
  have order: "(\<exists>acc d cs. acc \<in> {Call_GetDocument, Call_GetActiveSheet} \<and>
          (r = Inr () \<longrightarrow>
             map fst tr = [Call_OpenFile fileUrl, acc, Call_GetAllComments d] @ map Call_Delete cs @
                          [Call_SaveFile ext (''output.'' @ ext), Call_CloseFile] \<and>
             (\<forall>x \<in> set tr. \<not> is_throw (snd x)) \<and>
             (snapshot_stable H \<longrightarrow> snapshots tr = [cs])) \<and>
          (r \<noteq> Inr () \<longrightarrow>
             tr \<noteq> [] \<and>
             prefix (map fst tr) ([Call_OpenFile fileUrl, acc, Call_GetAllComments d] @ map Call_Delete cs @
                          [Call_SaveFile ext (''output.'' @ ext), Call_CloseFile]) \<and>
             (\<forall>x \<in> set (butlast tr). \<not> is_throw (snd x)) \<and>
             ((r = Inl TypeError \<and> tr = [(Call_OpenFile fileUrl, Done)]) \<or>
              (\<exists>e. r = Inl (HostFailure e) \<and> snd (last tr) = Threw e))))"
    if "convert H fileUrl ext w = Some (r, w', tr)" for r w' tr
    using that
  proof (cases rule: convert_cases)
    case (open_failed e)
    then show ?thesis by (intro exI[of _ Call_GetDocument]) simp
  next
    case unsupported
    then show ?thesis by (intro exI[of _ Call_GetDocument]) simp
  next
    case (accessor_failed e)
    then show ?thesis by (intro exI[of _ "accessor_call ext"]) (simp add: accessor_call_def)
  next
    case (enumerate_failed d e)
    then show ?thesis by (intro exI[of _ "accessor_call ext"] exI[of _ d]) (simp add: accessor_call_def)
  next
    case (delete_failed d a cs0 cs c e)
    then show ?thesis
      by (intro exI[of _ "accessor_call ext"] exI[of _ d] exI[of _ "cs @ [c]"])
         (auto simp: accessor_call_def butlast_append comp_def)
  next
    case (save_failed d a cs0 cs e)
    then show ?thesis
      by (intro exI[of _ "accessor_call ext"] exI[of _ d] exI[of _ cs])
         (auto simp: accessor_call_def butlast_append comp_def)
  next
    case (close_failed d a cs0 cs e)
    then show ?thesis
      by (intro exI[of _ "accessor_call ext"] exI[of _ d] exI[of _ cs])
         (auto simp: accessor_call_def butlast_append comp_def)
  next
    case (completed d a cs0 cs)
    then show ?thesis
      by (intro exI[of _ "accessor_call ext"] exI[of _ d] exI[of _ cs])
         (auto simp: accessor_call_def comp_def)
  qed
  have full: "replay H tr w = Some w' \<and>
       (\<exists>acc d cs. acc \<in> {Call_GetDocument, Call_GetActiveSheet} \<and>
          (r = Inr () \<longrightarrow>
             map fst tr = [Call_OpenFile fileUrl, acc, Call_GetAllComments d] @ map Call_Delete cs @
                          [Call_SaveFile ext (''output.'' @ ext), Call_CloseFile] \<and>
             (\<forall>x \<in> set tr. \<not> is_throw (snd x)) \<and>
             (snapshot_stable H \<longrightarrow> snapshots tr = [cs])) \<and>
          (r \<noteq> Inr () \<longrightarrow>
             tr \<noteq> [] \<and>
             prefix (map fst tr) ([Call_OpenFile fileUrl, acc, Call_GetAllComments d] @ map Call_Delete cs @
                          [Call_SaveFile ext (''output.'' @ ext), Call_CloseFile]) \<and>
             (\<forall>x \<in> set (butlast tr). \<not> is_throw (snd x)) \<and>
             ((r = Inl TypeError \<and> tr = [(Call_OpenFile fileUrl, Done)]) \<or>
              (\<exists>e. r = Inl (HostFailure e) \<and> snd (last tr) = Threw e))))"
    if run: "convert H fileUrl ext w = Some (r, w', tr)" for r w' tr
    using convert_truthful[OF run] order[OF run] by (rule conjI)
  show ?thesis
  proof (rule conjI)
    show "snapshot_stable H \<longrightarrow> convert H fileUrl ext w \<noteq> None"
      by (intro impI) (rule convert_terminates)
  next
    show "\<forall>r w' tr. convert H fileUrl ext w = Some (r, w', tr) \<longrightarrow>
       replay H tr w = Some w' \<and>
       (\<exists>acc d cs. acc \<in> {Call_GetDocument, Call_GetActiveSheet} \<and>
          (r = Inr () \<longrightarrow>
             map fst tr = [Call_OpenFile fileUrl, acc, Call_GetAllComments d] @ map Call_Delete cs @
                          [Call_SaveFile ext (''output.'' @ ext), Call_CloseFile] \<and>
             (\<forall>x \<in> set tr. \<not> is_throw (snd x)) \<and>
             (snapshot_stable H \<longrightarrow> snapshots tr = [cs])) \<and>
          (r \<noteq> Inr () \<longrightarrow>
             tr \<noteq> [] \<and>
             prefix (map fst tr) ([Call_OpenFile fileUrl, acc, Call_GetAllComments d] @ map Call_Delete cs @
                          [Call_SaveFile ext (''output.'' @ ext), Call_CloseFile]) \<and>
             (\<forall>x \<in> set (butlast tr). \<not> is_throw (snd x)) \<and>
             ((r = Inl TypeError \<and> tr = [(Call_OpenFile fileUrl, Done)]) \<or>
              (\<exists>e. r = Inl (HostFailure e) \<and> snd (last tr) = Threw e))))"
      using full by (intro allI impI)
  qed
qed

theorem linear_sequence_witness:
  "snapshot_stable editor_host \<and>
   convert editor_host ''report.docx'' ''docx'' report_world \<noteq> None \<and>
   convert editor_host ''report.docx'' ''docx'' report_world = Some (Inr (), report_done, report_log) \<and>
   replay editor_host report_log report_world = Some report_done \<and>
   map fst report_log =
     [Call_OpenFile ''report.docx'', Call_GetDocument, Call_GetAllComments ActiveDocument,
      Call_Delete 1, Call_Delete 2, Call_Delete 3,
      Call_SaveFile ''docx'' ''output.docx'', Call_CloseFile] \<and>
   snapshots report_log = [[1, 2, 3]]"
proof -
  note inst = linear_sequence[where H = editor_host and fileUrl = "''report.docx''" and ext = "''docx''"
      and w = report_world]
  from inst have "snapshot_stable editor_host \<longrightarrow> convert editor_host ''report.docx'' ''docx'' report_world \<noteq> None"
    by (rule conjunct1)
  with editor_stable have "convert editor_host ''report.docx'' ''docx'' report_world \<noteq> None"
    by (rule rev_mp)
  moreover from inst report_run have "replay editor_host report_log report_world = Some report_done"
    by blast
  moreover have "map fst report_log =
     [Call_OpenFile ''report.docx'', Call_GetDocument, Call_GetAllComments ActiveDocument,
      Call_Delete 1, Call_Delete 2, Call_Delete 3,
      Call_SaveFile ''docx'' ''output.docx'', Call_CloseFile]"
    "snapshots report_log = [[1, 2, 3]]"
    by (simp_all add: report_log_def)
  ultimately show ?thesis using editor_stable report_run by (intro conjI)
qed

text \<open>
  C8. In every run, \<open>CloseFile\<close> is called exactly when every step before it succeeded:
  if no call other than \<open>CloseFile\<close> threw and the script met no \<open>TypeError\<close>, it is called;
  in particular it is called whenever \<open>SaveFile\<close> returned, and it is the editor's
  \<open>CloseFile\<close> that runs, on the world \<open>SaveFile\<close> left, and the run ends in the world it
  leaves. When it is called it is the last call and no call before it threw; a run that
  fails at any earlier step never calls it.
\<close>

theorem close_only_after_success:
  fixes H :: "('h, 'd, 'c, 'e) host"
  assumes "convert H fileUrl ext w = Some (r, w', tr)"
  shows "replay H tr w = Some w' \<and>
         ((\<forall>x \<in> set tr. fst x \<noteq> Call_CloseFile \<longrightarrow> \<not> is_throw (snd x)) \<and> r \<noteq> Inl TypeError \<longrightarrow>
            Call_CloseFile \<in> fst ` set tr \<and> fst (last tr) = Call_CloseFile) \<and>
         ((Call_SaveFile ext (''output.'' @ ext), Done) \<in> set tr \<longrightarrow>
            Call_CloseFile \<in> fst ` set tr \<and> fst (last tr) = Call_CloseFile) \<and>
         (r = Inr () \<longrightarrow>
            last tr = (Call_CloseFile, Done) \<and>
            (\<exists>w4 w5. builder_SaveFile H ext (''output.'' @ ext) w4 = (Inr (), w5) \<and>
                     builder_CloseFile H w5 = (Inr (), w'))) \<and>
         (\<forall>e. last tr = (Call_CloseFile, Threw e) \<longrightarrow>
            (\<exists>w4 w5. builder_SaveFile H ext (''output.'' @ ext) w4 = (Inr (), w5) \<and>
                     builder_CloseFile H w5 = (Inl e, w'))) \<and>
         (Call_CloseFile \<in> fst ` set tr \<longleftrightarrow>
            r = Inr () \<or> (\<exists>e. r = Inl (HostFailure e) \<and> last tr = (Call_CloseFile, Threw e))) \<and>
         (Call_CloseFile \<in> fst ` set tr \<longrightarrow>
            fst (last tr) = Call_CloseFile \<and>
            (\<forall>x \<in> set (butlast tr). fst x \<noteq> Call_CloseFile \<and> \<not> is_throw (snd x)))"
proof -
  have logged: "((\<forall>x \<in> set tr. fst x \<noteq> Call_CloseFile \<longrightarrow> \<not> is_throw (snd x)) \<and> r \<noteq> Inl TypeError \<longrightarrow>
            Call_CloseFile \<in> fst ` set tr \<and> fst (last tr) = Call_CloseFile) \<and>
         ((Call_SaveFile ext (''output.'' @ ext), Done) \<in> set tr \<longrightarrow>
            Call_CloseFile \<in> fst ` set tr \<and> fst (last tr) = Call_CloseFile) \<and>
         (r = Inr () \<longrightarrow> last tr = (Call_CloseFile, Done)) \<and>
         (Call_CloseFile \<in> fst ` set tr \<longleftrightarrow>
            r = Inr () \<or> (\<exists>e. r = Inl (HostFailure e) \<and> last tr = (Call_CloseFile, Threw e))) \<and>
         (Call_CloseFile \<in> fst ` set tr \<longrightarrow>
            fst (last tr) = Call_CloseFile \<and>
            (\<forall>x \<in> set (butlast tr). fst x \<noteq> Call_CloseFile \<and> \<not> is_throw (snd x)))"
    using assms
  proof (cases rule: convert_cases)
    case (delete_failed d a cs0 cs c e)
    then show ?thesis by (auto simp: butlast_append accessor_call_def)
  next
    case (save_failed d a cs0 cs e)
    then show ?thesis by (auto simp: butlast_append accessor_call_def)
  next
    case (close_failed d a cs0 cs e)
    then show ?thesis by (auto simp: butlast_append accessor_call_def)
  next
    case (completed d a cs0 cs)
    then show ?thesis by (auto simp: butlast_append accessor_call_def)
  qed (auto simp: accessor_call_def)
  with convert_truthful[OF assms] run_ending(1,3)[OF assms] show ?thesis by blast
qed

theorem close_only_after_success_witness:
  "convert editor_host ''report.docx'' ''docx'' report_world = Some (Inr (), report_done, report_log) \<and>
   replay editor_host report_log report_world = Some report_done \<and>
   (Call_SaveFile ''docx'' ''output.docx'', Done) \<in> set report_log \<and>
   last report_log = (Call_CloseFile, Done) \<and>
   Call_CloseFile \<in> fst ` set report_log \<and>
   convert editor_host ''report.docx'' ''docx'' locked_world =
     Some (Inl (HostFailure DeletionFailure), locked_end, locked_log) \<and>
   last locked_log = (Call_Delete 2, Threw DeletionFailure) \<and>
   Call_CloseFile \<notin> fst ` set locked_log"
proof -
  have saved: "(Call_SaveFile ''docx'' ''output.docx'', Done) \<in> set report_log"
    by (simp add: report_log_def)
  from close_only_after_success[OF report_run] saved
  have closed: "replay editor_host report_log report_world = Some report_done"
    "last report_log = (Call_CloseFile, Done)" "Call_CloseFile \<in> fst ` set report_log"
    by simp_all
  have last: "last locked_log = (Call_Delete 2, Threw DeletionFailure)"
    by (simp add: locked_log_def)
  with close_only_after_success[OF locked_run]
  have "Call_CloseFile \<notin> fst ` set locked_log" by simp
  with closed saved last report_run locked_run show ?thesis by (intro conjI)
qed

text \<open>
  C9. The labels of the \<open>switch\<close> are compared with \<open>ext\<close> as they are written. An \<open>ext\<close> that
  differs from a supported extension in the case of a letter only (\<open>DOCX\<close>, \<open>Doc\<close>, \<open>Xlsx\<close>)
  selects no accessor, and the run is the run of a wholly unrecognised value such as
  \<open>pdf\<close>: it fails with \<open>OpenFile\<close> as its only call.
\<close>

theorem dispatch_case_sensitive:
  fixes H :: "('h, 'd, 'c, 'e) host"
  assumes "map ascii_lower ext \<in> {''doc'', ''docx'', ''xls'', ''xlsx''}" and "ext \<noteq> map ascii_lower ext"
  shows "select_accessor H ext s = (Inr None, s) \<and>
         convert H fileUrl ext w = convert H fileUrl ''pdf'' w \<and>
         convert H fileUrl ext w =
           (case builder_OpenFile H fileUrl w of
              (Inl e, w1) \<Rightarrow> Some (Inl (HostFailure e), w1, [(Call_OpenFile fileUrl, Threw e)])
            | (Inr u, w1) \<Rightarrow> Some (Inl TypeError, w1, [(Call_OpenFile fileUrl, Done)]))"
proof -
  from assms(2) lower_supported[of ext] have out: "ext \<notin> {''doc'', ''docx'', ''xls'', ''xlsx''}"
    by metis
  from out have "select_accessor H ext s = (Inr None, s)"
    by (simp add: select_accessor_def)
  moreover have "convert H fileUrl ext w =
           (case builder_OpenFile H fileUrl w of
              (Inl e, w1) \<Rightarrow> Some (Inl (HostFailure e), w1, [(Call_OpenFile fileUrl, Threw e)])
            | (Inr u, w1) \<Rightarrow> Some (Inl TypeError, w1, [(Call_OpenFile fileUrl, Done)]))"
    using out
    by (cases rule: convert_prefix_cases[of H fileUrl w ext]) (simp_all add: supported_def)
  moreover have "convert H fileUrl ''pdf'' w =
           (case builder_OpenFile H fileUrl w of
              (Inl e, w1) \<Rightarrow> Some (Inl (HostFailure e), w1, [(Call_OpenFile fileUrl, Threw e)])
            | (Inr u, w1) \<Rightarrow> Some (Inl TypeError, w1, [(Call_OpenFile fileUrl, Done)]))"
    by (cases rule: convert_prefix_cases[of H fileUrl w "''pdf''"]) (simp_all add: supported_def)
  ultimately show ?thesis by simp
qed

theorem dispatch_case_sensitive_witness:
  "map ascii_lower ''DOCX'' \<in> {''doc'', ''docx'', ''xls'', ''xlsx''} \<and>
   ''DOCX'' \<noteq> map ascii_lower ''DOCX'' \<and>
   map ascii_lower ''Xlsx'' \<in> {''doc'', ''docx'', ''xls'', ''xlsx''} \<and>
   ''Xlsx'' \<noteq> map ascii_lower ''Xlsx'' \<and>
   convert editor_host ''report.docx'' ''DOCX'' report_world =
     Some (Inl TypeError, report_opened, [(Call_OpenFile ''report.docx'', Done)]) \<and>
   convert editor_host ''report.docx'' ''Xlsx'' report_world =
     convert editor_host ''report.docx'' ''pdf'' report_world"
proof -
  have up: "map ascii_lower ''DOCX'' \<in> {''doc'', ''docx'', ''xls'', ''xlsx''}"
    "''DOCX'' \<noteq> map ascii_lower ''DOCX''"
    by (simp_all add: ascii_lower_def)
  have mixed: "map ascii_lower ''Xlsx'' \<in> {''doc'', ''docx'', ''xls'', ''xlsx''}"
    "''Xlsx'' \<noteq> map ascii_lower ''Xlsx''"
    by (simp_all add: ascii_lower_def)
  from dispatch_case_sensitive[OF up, of editor_host _ "''report.docx''" report_world] report_pdf_run
  have "convert editor_host ''report.docx'' ''DOCX'' report_world =
     Some (Inl TypeError, report_opened, [(Call_OpenFile ''report.docx'', Done)])"
    by simp
  moreover from dispatch_case_sensitive[OF mixed, of editor_host _ "''report.docx''" report_world]
  have "convert editor_host ''report.docx'' ''Xlsx'' report_world =
     convert editor_host ''report.docx'' ''pdf'' report_world"
    by simp
  ultimately show ?thesis using up mixed by (intro conjI)
qed

text \<open>
  C10, as the claim states it, fails: the calls also depend on whether the editor's
  operations throw. Two runs on the same \<open>fileUrl\<close> and \<open>ext\<close> are handed the same snapshot
  1, 2, 3; in the second the editor refuses to delete comment 2, and the script stops
  there, five calls into the eight of the first run.
\<close>

theorem calls_depend_on_host_failures:
  "convert editor_host ''report.docx'' ''docx'' report_world = Some (Inr (), report_done, report_log) \<and>
   convert editor_host ''report.docx'' ''docx'' locked_world =
     Some (Inl (HostFailure DeletionFailure), locked_end, locked_log) \<and>
   snapshots report_log = [[1, 2, 3]] \<and>
   snapshots locked_log = [[1, 2, 3]] \<and>
   map fst report_log \<noteq> map fst locked_log \<and>
   length report_log = 8 \<and>
   length locked_log = 5"
  using report_run locked_run by (simp add: report_log_def locked_log_def)

text \<open>
  C10, amended. The calls of a run are determined by \<open>fileUrl\<close>, \<open>ext\<close> and the answers of
  the editor: of two runs on the same \<open>fileUrl\<close> and \<open>ext\<close>, under editors that do not change
  a fetched array, if the answers of one (the handle, the snapshot, and each call
  returning or throwing) are the answers of the other as far as the first run goes, then
  neither run goes further than the other, and they issue exactly the same sequence of
  calls, with the same answers and the same outcome. Each log is a true record of the
  operations its editor performed. The editors and their worlds may differ in everything
  else.
\<close>

theorem calls_determined_by_answers:
  fixes H1 :: "('h1, 'd, 'c, 'e) host" and H2 :: "('h2, 'd, 'c, 'e) host"
  assumes run1: "convert H1 fileUrl ext w1 = Some (r1, w1', tr1)"
    and run2: "convert H2 fileUrl ext w2 = Some (r2, w2', tr2)"
    and st: "snapshot_stable H1" "snapshot_stable H2"
    and same: "prefix (map snd tr1) (map snd tr2)"
  shows "map fst tr1 = map fst tr2 \<and> tr1 = tr2 \<and> r1 = r2 \<and>
         replay H1 tr1 w1 = Some w1' \<and> replay H2 tr2 w2 = Some w2'"
proof -
  from run_same_length[OF run1 run2 st same] have answers: "map snd tr1 = map snd tr2" .
  from run_same_calls[OF run1 run2 st answers] have calls: "map fst tr1 = map fst tr2" .
  from calls answers have logs: "tr1 = tr2" by (metis zip_map_fst_snd)
  have outcome: "r1 = r2"
  proof (cases r1)
    case (Inr u)
    with run_outcome(2)[OF run1] run_outcome(2)[OF run2] logs show ?thesis by simp
  next
    case (Inl f)
    show ?thesis
    proof (cases f)
      case (HostFailure e)
      with Inl run_outcome(3)[OF run1, of e] run_outcome(3)[OF run2, of e] logs show ?thesis by simp
    next
      case TypeError
      have "r2 \<noteq> Inr ()"
        using Inl run_outcome(2)[OF run1] run_outcome(2)[OF run2] logs by auto
      moreover have "r2 \<noteq> Inl (HostFailure e)" for e
        using Inl TypeError run_outcome(3)[OF run1, of e] run_outcome(3)[OF run2, of e] logs by auto
      ultimately have "r2 = Inl TypeError"
      proof (cases r2)
        case (Inl g)
        assume other: "\<And>e. r2 \<noteq> Inl (HostFailure e)"
        with Inl show ?thesis by (cases g) simp_all
      qed simp
      with Inl TypeError show ?thesis by simp
    qed
  qed
  from calls logs outcome convert_truthful[OF run1] convert_truthful[OF run2]
  show ?thesis by (intro conjI)
qed

theorem calls_determined_by_answers_witness:
  "snapshot_stable editor_host \<and>
   report_world \<noteq> draft_world \<and>
   prefix (map snd (run_log (convert editor_host ''report.docx'' ''docx'' report_world)))
     (map snd (run_log (convert editor_host ''report.docx'' ''docx'' draft_world))) \<and>
   map fst (run_log (convert editor_host ''report.docx'' ''docx'' report_world)) =
     map fst (run_log (convert editor_host ''report.docx'' ''docx'' draft_world)) \<and>
   replay editor_host report_log report_world = Some report_done"
proof -
  from draft_run obtain draft_done where
    draft: "convert editor_host ''report.docx'' ''docx'' draft_world = Some (Inr (), draft_done, report_log)"
    by blast
  have differ: "report_world \<noteq> draft_world"
  proof
    assume "report_world = draft_world"
    then have "files (host_state report_world) ''notes.docx'' = files (host_state draft_world) ''notes.docx''"
      by simp
    then show False by (simp add: report_world_def draft_world_def start_world_def)
  qed
  have answers: "prefix (map snd (run_log (convert editor_host ''report.docx'' ''docx'' report_world)))
     (map snd (run_log (convert editor_host ''report.docx'' ''docx'' draft_world)))"
    by (simp add: run_log_def report_run draft)
  have same: "prefix (map snd report_log) (map snd report_log)" by simp
  note inst = calls_determined_by_answers[OF report_run draft editor_stable editor_stable same]
  from inst have "map fst report_log = map fst report_log" by (rule conjunct1)
  then have calls: "map fst (run_log (convert editor_host ''report.docx'' ''docx'' report_world)) =
     map fst (run_log (convert editor_host ''report.docx'' ''docx'' draft_world))"
    by (simp add: run_log_def report_run draft)
  from inst have rec: "replay editor_host report_log report_world = Some report_done" by simp
  from editor_stable differ answers calls rec show ?thesis by (intro conjI)
qed

end
